theory Spec2Isabelle
  imports Complex_Main
begin

section \<open>Strings\<close>

text \<open>
  A JavaScript string is a sequence of UTF-16 code units; \<open>text.length\<close> counts them,
  and a regular expression without the \<open>u\<close> flag matches them one at a time. A text is
  therefore a list of code units, each a natural number below 65536.
\<close>

type_synonym jsstring = "nat list"

definition js :: "string \<Rightarrow> jsstring" where
  "js s = map of_char s"

text \<open>
  \<open>String.prototype.toLowerCase\<close>. The letters A to Z go to a to z. Code units outside
  ASCII are left as they are: the lower case of a character outside ASCII contains an
  ASCII letter for two characters only, U+0130 (giving i followed by U+0307) and U+212A
  (giving k), and neither result can be part of an occurrence of one of the banned words
  below (no banned word contains k, none begins or ends with i, and none has U+0307
  after an i). The only use of the lowered text in the program is the search for these
  words.
\<close>

definition lower_unit :: "nat \<Rightarrow> nat" where
  "lower_unit c = (if 65 \<le> c \<and> c \<le> 90 then c + 32 else c)"

definition toLowerCase :: "jsstring \<Rightarrow> jsstring" where
  "toLowerCase t = map lower_unit t"

definition starts_with :: "jsstring \<Rightarrow> jsstring \<Rightarrow> bool" where
  "starts_with s w = (take (length w) s = w)"

text \<open>\<open>String.prototype.includes\<close>: the word occurs at some position of the string.\<close>

fun str_includes :: "jsstring \<Rightarrow> jsstring \<Rightarrow> bool" where
  "str_includes [] w = (w = [])"
| "str_includes (c # cs) w = (starts_with (c # cs) w \<or> str_includes cs w)"

section \<open>Content filtering\<close>

record filter_result =
  allowed :: bool
  reason :: string

definition bannedWords :: "jsstring list" where
  "bannedWords = map js [''spam'', ''scam'', ''http://'', ''https://'', ''telegram.me'',
     ''t.me/joinchat'', ''bit.ly'', ''tinyurl'']"

text \<open>
  The \<open>for\<close> loop over the banned words, which returns from \<open>contentFilter\<close> at the
  first word found: the result is whether that return is taken.
\<close>

fun banned_loop :: "jsstring list \<Rightarrow> jsstring \<Rightarrow> bool" where
  "banned_loop [] lowerText = False"
| "banned_loop (word # rest) lowerText =
     (if str_includes lowerText word then True else banned_loop rest lowerText)"

text \<open>The matches of \<open>/[A-Z]/g\<close>.\<close>

definition is_capital :: "nat \<Rightarrow> bool" where
  "is_capital c = (65 \<le> c \<and> c \<le> 90)"

definition capitalLetters :: "jsstring \<Rightarrow> nat" where
  "capitalLetters t = length (filter is_capital t)"

text \<open>
  \<open>capitalLetters / text.length\<close>. The program divides two doubles and compares the
  quotient with the double nearest to 0.7. Where the comparison is reached the length is
  at most 2000, so the exact quotient is either 7/10 or differs from it by at least
  1/20000, far more than the rounding of either side: the comparison of the doubles and
  the comparison of the exact numbers agree. For the empty text the quotient is NaN,
  which is not greater than anything; here it is 0.
\<close>

definition capitalRatio :: "jsstring \<Rightarrow> real" where
  "capitalRatio t = real (capitalLetters t) / real (length t)"

text \<open>
  The dot of a regular expression matches any code unit except the line terminators
  LF, CR, U+2028 and U+2029.
\<close>

definition line_terminator :: "nat \<Rightarrow> bool" where
  "line_terminator c = (c = 10 \<or> c = 13 \<or> c = 8232 \<or> c = 8233)"

text \<open>
  \<open>/(.)\1{10,}/.test(text)\<close>: at some position there is a code unit the dot matches,
  followed by at least ten copies of it.
\<close>

fun repetitivePattern_test :: "jsstring \<Rightarrow> bool" where
  "repetitivePattern_test [] = False"
| "repetitivePattern_test (c # cs) =
     ((\<not> line_terminator c \<and> take 10 cs = replicate 10 c) \<or> repetitivePattern_test cs)"

definition contentFilter :: "jsstring \<Rightarrow> filter_result" where
  "contentFilter t =
     (let lowerText = toLowerCase t in
      if banned_loop bannedWords lowerText
      then \<lparr>allowed = False, reason = ''Contains banned content''\<rparr>
      else if length t > 2000
      then \<lparr>allowed = False, reason = ''Content too long (max 2000 characters)''\<rparr>
      else if capitalRatio t > 7 / 10 \<and> length t > 20
      then \<lparr>allowed = False, reason = ''Too many capital letters''\<rparr>
      else if repetitivePattern_test t
      then \<lparr>allowed = False, reason = ''Repetitive text detected''\<rparr>
      else \<lparr>allowed = True, reason = ''''\<rparr>)"

section \<open>The document store\<close>

text \<open>
  The seven collections of the database, each a list of documents in insertion order.
  Telegram user ids are numbers; dates are points in time, read from the clock by the
  caller of each operation and passed in as \<open>now\<close>. An \<open>_id\<close> is kept for the documents
  whose identifier the program reads (questions, answers, notifications).
\<close>

type_synonym oid = nat
type_synonym date = nat

record user =
  u_user_id :: int
  u_username :: jsstring
  points :: int
  questions_asked :: int
  answers_given :: int
  join_date :: date

record question =
  q_id :: oid
  q_user_id :: int
  q_username :: jsstring
  q_question :: jsstring
  q_topic :: jsstring
  approved :: bool
  q_channel_message_id :: "nat option"
  answer_count :: int
  q_created_at :: date

record answer =
  a_id :: oid
  a_question_id :: oid
  a_user_id :: int
  a_username :: jsstring
  a_answer :: jsstring
  a_channel_message_id :: "nat option"
  a_votes :: int
  a_created_at :: date

datatype session_step =
  Awaiting_question | Awaiting_topic | Confirm_question | Editing_question
  | Awaiting_answer | Awaiting_feedback

text \<open>The session payload: a bag of fields, each present or not.\<close>

record session_data =
  step :: session_step
  s_question :: "jsstring option"
  s_topic :: "jsstring option"
  waitingForCustomTopic :: bool
  s_questionId :: "string option"
  s_questionText :: "jsstring option"
  s_channelMessageId :: "nat option"

record session =
  ss_user_id :: int
  ss_data :: session_data
  ss_updated_at :: date

record subscription =
  sub_user_id :: int
  sub_question_id :: oid
  sub_created_at :: date

datatype vote_type = Up | Down

record vote =
  v_user_id :: int
  v_answer_id :: oid
  v_vote_type :: vote_type
  v_created_at :: date

text \<open>
  The type of a notification together with the data the program stores for that type:
  \<open>new_answer\<close> (question id, answer text, answerer), \<open>question_approved\<close> (question
  text, channel message id) and \<open>vote_received\<close> (answer id, answer text, direction).
\<close>

datatype notification_payload =
  New_answer string jsstring int
  | Question_approved jsstring nat
  | Vote_received string jsstring vote_type

datatype notification_type = T_new_answer | T_question_approved | T_vote_received

fun type_of_payload :: "notification_payload \<Rightarrow> notification_type" where
  "type_of_payload (New_answer _ _ _) = T_new_answer"
| "type_of_payload (Question_approved _ _) = T_question_approved"
| "type_of_payload (Vote_received _ _ _) = T_vote_received"

record notification =
  n_id :: oid
  n_user_id :: int
  n_payload :: notification_payload
  n_read :: bool
  n_created_at :: date

text \<open>
  Messages the bot sends on its own initiative through \<open>bot.telegram.sendMessage\<close>, as
  opposed to the replies to the update being handled.
\<close>

datatype message =
  Realtime notification_type
  | Rejection_notice
  | New_question_for_approval oid
  | New_feedback jsstring

text \<open>
  The state of the system: the collections, the generator of fresh \<open>_id\<close>s, and the
  messaging side (messages delivered to users, the users who have blocked the bot and to
  whom sending fails, and the message counter of the public channel).
\<close>

record world =
  users :: "user list"
  questions :: "question list"
  answers :: "answer list"
  sessions :: "session list"
  subscriptions :: "subscription list"
  votes :: "vote list"
  notifications :: "notification list"
  next_oid :: oid
  sent :: "(int \<times> message) list"
  blocked :: "int list"
  channel_posts :: "(nat \<times> oid) list"
  next_message_id :: nat

definition empty_world :: world where
  "empty_world = \<lparr>users = [], questions = [], answers = [], sessions = [],
     subscriptions = [], votes = [], notifications = [], next_oid = 0, sent = [],
     blocked = [], channel_posts = [], next_message_id = 1\<rparr>"

subsection \<open>Collection operations\<close>

text \<open>\<open>updateOne\<close> without upsert and \<open>deleteOne\<close> act on the first matching document.\<close>

fun update_one :: "('a \<Rightarrow> bool) \<Rightarrow> ('a \<Rightarrow> 'a) \<Rightarrow> 'a list \<Rightarrow> 'a list" where
  "update_one P f [] = []"
| "update_one P f (x # xs) = (if P x then f x # xs else x # update_one P f xs)"

fun delete_one :: "('a \<Rightarrow> bool) \<Rightarrow> 'a list \<Rightarrow> 'a list" where
  "delete_one P [] = []"
| "delete_one P (x # xs) = (if P x then xs else x # delete_one P xs)"

definition find_one :: "('a \<Rightarrow> bool) \<Rightarrow> 'a list \<Rightarrow> 'a option" where
  "find_one P xs = List.find P xs"

definition update_many :: "('a \<Rightarrow> bool) \<Rightarrow> ('a \<Rightarrow> 'a) \<Rightarrow> 'a list \<Rightarrow> 'a list" where
  "update_many P f xs = map (\<lambda>x. if P x then f x else x) xs"

text \<open>
  \<open>new ObjectId(s)\<close> for a string: 24 hexadecimal digits, in either case, give the
  identifier; anything else throws (\<open>None\<close>). This is the form in which the program
  writes the ids into its buttons and links.
\<close>

definition hex_digit :: "char \<Rightarrow> nat option" where
  "hex_digit c =
     (let n = (of_char c :: nat) in
      if 48 \<le> n \<and> n \<le> 57 then Some (n - 48)
      else if 97 \<le> n \<and> n \<le> 102 then Some (n - 87)
      else if 65 \<le> n \<and> n \<le> 70 then Some (n - 55)
      else None)"

fun hex_number :: "nat \<Rightarrow> string \<Rightarrow> nat option" where
  "hex_number acc [] = Some acc"
| "hex_number acc (c # cs) =
     (case hex_digit c of None \<Rightarrow> None | Some d \<Rightarrow> hex_number (16 * acc + d) cs)"

definition ObjectId :: "string \<Rightarrow> oid option" where
  "ObjectId s = (if length s = 24 then hex_number 0 s else None)"

section \<open>Database helper functions\<close>

text \<open>
  Each helper takes the state and returns the new state with its result. A helper whose
  body throws (here: \<open>new ObjectId\<close> on a malformed id) catches the exception and
  returns its failure value, leaving the writes already made in place. Failures of the
  database itself are outside the model.
\<close>

subsection \<open>Users\<close>

definition getUser :: "world \<Rightarrow> int \<Rightarrow> user option" where
  "getUser w userId = find_one (\<lambda>u. u_user_id u = userId) (users w)"

fun nat_toString :: "nat \<Rightarrow> string" where
  "nat_toString n =
     (if n < 10 then [char_of (48 + n)]
      else nat_toString (n div 10) @ [char_of (48 + n mod 10)])"

definition number_toString :: "int \<Rightarrow> string" where
  "number_toString i = (if i < 0 then CHR ''-'' # nat_toString (nat (- i)) else nat_toString (nat i))"

text \<open>
  \<open>createUser\<close>: an upsert with \<open>$setOnInsert\<close>, which inserts the new user when no
  document has the id and changes nothing otherwise.
\<close>

definition new_user :: "date \<Rightarrow> int \<Rightarrow> jsstring \<Rightarrow> user" where
  "new_user now userId username_arg =
     \<lparr>u_user_id = userId,
      u_username = (if username_arg = [] then js (''user_'' @ number_toString userId)
                    else username_arg),
      points = 0, questions_asked = 0, answers_given = 0, join_date = now\<rparr>"

definition createUser :: "world \<Rightarrow> date \<Rightarrow> int \<Rightarrow> jsstring \<Rightarrow> world \<times> user option" where
  "createUser w now userId username_arg =
     (let w' = (case getUser w userId of
                  Some _ \<Rightarrow> w
                | None \<Rightarrow> w\<lparr>users := users w @ [new_user now userId username_arg]\<rparr>)
      in (w', getUser w' userId))"

datatype stat_field = F_points | F_questions_asked | F_answers_given

text \<open>\<open>$inc\<close> with the object \<open>updateFields\<close>, a map from field to amount.\<close>

definition inc_amount :: "(stat_field \<rightharpoonup> int) \<Rightarrow> stat_field \<Rightarrow> int" where
  "inc_amount updateFields f = (case updateFields f of None \<Rightarrow> 0 | Some d \<Rightarrow> d)"

definition apply_inc :: "(stat_field \<rightharpoonup> int) \<Rightarrow> user \<Rightarrow> user" where
  "apply_inc updateFields u =
     u\<lparr>points := points u + inc_amount updateFields F_points,
       questions_asked := questions_asked u + inc_amount updateFields F_questions_asked,
       answers_given := answers_given u + inc_amount updateFields F_answers_given\<rparr>"

definition updateUserStats :: "world \<Rightarrow> int \<Rightarrow> stat_field \<Rightarrow> int \<Rightarrow> world" where
  "updateUserStats w userId field increment =
     (let updateFields0 = [field \<mapsto> increment];
          updateFields1 = (if field = F_questions_asked \<and> increment = 1
                           then updateFields0(F_points \<mapsto> 5) else updateFields0);
          updateFields = (if field = F_answers_given \<and> increment = 1
                          then updateFields1(F_points \<mapsto> 5) else updateFields1)
      in w\<lparr>users := update_one (\<lambda>u. u_user_id u = userId) (apply_inc updateFields) (users w)\<rparr>)"

subsection \<open>Questions and answers\<close>

definition createQuestion ::
  "world \<Rightarrow> date \<Rightarrow> int \<Rightarrow> jsstring \<Rightarrow> jsstring \<Rightarrow> jsstring \<Rightarrow> world \<times> oid option" where
  "createQuestion w now userId username_arg question_arg topic =
     (let q = \<lparr>q_id = next_oid w, q_user_id = userId, q_username = username_arg,
                q_question = question_arg, q_topic = topic, approved = False,
                q_channel_message_id = None, answer_count = 0, q_created_at = now\<rparr>
      in (w\<lparr>questions := questions w @ [q], next_oid := next_oid w + 1\<rparr>, Some (q_id q)))"

definition getQuestion :: "world \<Rightarrow> string \<Rightarrow> question option" where
  "getQuestion w questionId =
     (case ObjectId questionId of
        None \<Rightarrow> None
      | Some i \<Rightarrow> find_one (\<lambda>q. q_id q = i) (questions w))"

definition approveQuestion :: "world \<Rightarrow> string \<Rightarrow> nat \<Rightarrow> world \<times> question option" where
  "approveQuestion w questionId channelMessageId =
     (case ObjectId questionId of
        None \<Rightarrow> (w, None)
      | Some i \<Rightarrow>
          (let w1 = w\<lparr>questions := update_one (\<lambda>q. q_id q = i)
                        (\<lambda>q. q\<lparr>approved := True, q_channel_message_id := Some channelMessageId\<rparr>)
                        (questions w)\<rparr>;
               question = getQuestion w1 questionId
           in case question of
                None \<Rightarrow> (w1, None)
              | Some q \<Rightarrow> (updateUserStats w1 (q_user_id q) F_questions_asked 1, Some q)))"

record answerData =
  ad_questionId :: string
  ad_userId :: int
  ad_username :: jsstring
  ad_answer :: jsstring
  ad_channelMessageId :: "nat option"

definition createAnswer :: "world \<Rightarrow> date \<Rightarrow> answerData \<Rightarrow> world \<times> oid option" where
  "createAnswer w now d =
     (case ObjectId (ad_questionId d) of
        None \<Rightarrow> (w, None)
      | Some qi \<Rightarrow>
          (let a = \<lparr>a_id = next_oid w, a_question_id = qi, a_user_id = ad_userId d,
                     a_username = ad_username d, a_answer = ad_answer d,
                     a_channel_message_id = ad_channelMessageId d, a_votes = 0,
                     a_created_at = now\<rparr>;
               w1 = w\<lparr>answers := answers w @ [a], next_oid := next_oid w + 1\<rparr>;
               w2 = w1\<lparr>questions := update_one (\<lambda>q. q_id q = qi)
                        (\<lambda>q. q\<lparr>answer_count := answer_count q + 1\<rparr>) (questions w1)\<rparr>;
               w3 = updateUserStats w2 (ad_userId d) F_answers_given 1
           in (w3, Some (a_id a))))"

definition getAnswerWithVotes :: "world \<Rightarrow> string \<Rightarrow> answer option" where
  "getAnswerWithVotes w answerId =
     (case ObjectId answerId of
        None \<Rightarrow> None
      | Some i \<Rightarrow> find_one (\<lambda>a. a_id a = i) (answers w))"

subsection \<open>Sessions\<close>

definition getSession :: "world \<Rightarrow> int \<Rightarrow> session_data option" where
  "getSession w userId =
     (case find_one (\<lambda>s. ss_user_id s = userId) (sessions w) of
        None \<Rightarrow> None
      | Some s \<Rightarrow> Some (ss_data s))"

definition saveSession :: "world \<Rightarrow> date \<Rightarrow> int \<Rightarrow> session_data \<Rightarrow> world" where
  "saveSession w now userId sessionData =
     (case find_one (\<lambda>s. ss_user_id s = userId) (sessions w) of
        Some _ \<Rightarrow> w\<lparr>sessions := update_one (\<lambda>s. ss_user_id s = userId)
                      (\<lambda>s. s\<lparr>ss_data := sessionData, ss_updated_at := now\<rparr>) (sessions w)\<rparr>
      | None \<Rightarrow> w\<lparr>sessions := sessions w @
                      [\<lparr>ss_user_id = userId, ss_data = sessionData, ss_updated_at = now\<rparr>]\<rparr>)"

definition deleteSession :: "world \<Rightarrow> int \<Rightarrow> world" where
  "deleteSession w userId = w\<lparr>sessions := delete_one (\<lambda>s. ss_user_id s = userId) (sessions w)\<rparr>"

subsection \<open>Notifications\<close>

text \<open>
  \<open>bot.telegram.sendMessage\<close> to a user: it throws (\<open>None\<close>) when the user has blocked
  the bot.
\<close>

definition sendMessage :: "world \<Rightarrow> int \<Rightarrow> message \<Rightarrow> world option" where
  "sendMessage w chat m =
     (if chat \<in> set (blocked w) then None else Some (w\<lparr>sent := sent w @ [(chat, m)]\<rparr>))"

text \<open>
  \<open>sendRealTimeNotification\<close> builds a message (none when the question or answer it
  refers to is gone) and sends it; an exception is logged and swallowed.
\<close>

definition has_message :: "world \<Rightarrow> notification_payload \<Rightarrow> bool" where
  "has_message w p =
     (case p of
        New_answer questionId _ _ \<Rightarrow> getQuestion w questionId \<noteq> None
      | Question_approved _ _ \<Rightarrow> True
      | Vote_received answerId _ _ \<Rightarrow> getAnswerWithVotes w answerId \<noteq> None)"

definition sendRealTimeNotification :: "world \<Rightarrow> int \<Rightarrow> notification_payload \<Rightarrow> world" where
  "sendRealTimeNotification w userId p =
     (if has_message w p
      then (case sendMessage w userId (Realtime (type_of_payload p)) of
              None \<Rightarrow> w
            | Some w' \<Rightarrow> w')
      else w)"

definition createNotification ::
  "world \<Rightarrow> date \<Rightarrow> int \<Rightarrow> notification_payload \<Rightarrow> world \<times> bool" where
  "createNotification w now userId p =
     (let n = \<lparr>n_id = next_oid w, n_user_id = userId, n_payload = p, n_read = False,
                n_created_at = now\<rparr>;
          w1 = w\<lparr>notifications := notifications w @ [n], next_oid := next_oid w + 1\<rparr>
      in (sendRealTimeNotification w1 userId p, True))"

definition markNotificationAsRead :: "world \<Rightarrow> string \<Rightarrow> world \<times> bool" where
  "markNotificationAsRead w notificationId =
     (case ObjectId notificationId of
        None \<Rightarrow> (w, False)
      | Some i \<Rightarrow> (w\<lparr>notifications := update_one (\<lambda>n. n_id n = i) (\<lambda>n. n\<lparr>n_read := True\<rparr>)
                       (notifications w)\<rparr>, True))"

definition markAllNotificationsAsRead :: "world \<Rightarrow> int \<Rightarrow> world \<times> bool" where
  "markAllNotificationsAsRead w userId =
     (w\<lparr>notifications := update_many (\<lambda>n. n_user_id n = userId \<and> \<not> n_read n)
          (\<lambda>n. n\<lparr>n_read := True\<rparr>) (notifications w)\<rparr>, True)"

subsection \<open>Subscriptions\<close>

definition subscribeToQuestion :: "world \<Rightarrow> date \<Rightarrow> int \<Rightarrow> string \<Rightarrow> world \<times> bool" where
  "subscribeToQuestion w now userId questionId =
     (case ObjectId questionId of
        None \<Rightarrow> (w, False)
      | Some qi \<Rightarrow>
          (case find_one (\<lambda>s. sub_user_id s = userId \<and> sub_question_id s = qi) (subscriptions w) of
             Some _ \<Rightarrow> (w, True)
           | None \<Rightarrow> (w\<lparr>subscriptions := subscriptions w @
                          [\<lparr>sub_user_id = userId, sub_question_id = qi, sub_created_at = now\<rparr>]\<rparr>,
                      True)))"

definition unsubscribeFromQuestion :: "world \<Rightarrow> int \<Rightarrow> string \<Rightarrow> world \<times> bool" where
  "unsubscribeFromQuestion w userId questionId =
     (case ObjectId questionId of
        None \<Rightarrow> (w, False)
      | Some qi \<Rightarrow>
          (w\<lparr>subscriptions := delete_one (\<lambda>s. sub_user_id s = userId \<and> sub_question_id s = qi)
               (subscriptions w)\<rparr>, True))"

definition getSubscribers :: "world \<Rightarrow> string \<Rightarrow> int list" where
  "getSubscribers w questionId =
     (case ObjectId questionId of
        None \<Rightarrow> []
      | Some qi \<Rightarrow> map sub_user_id (filter (\<lambda>s. sub_question_id s = qi) (subscriptions w)))"

definition isSubscribed :: "world \<Rightarrow> int \<Rightarrow> string \<Rightarrow> bool" where
  "isSubscribed w userId questionId =
     (case ObjectId questionId of
        None \<Rightarrow> False
      | Some qi \<Rightarrow>
          find_one (\<lambda>s. sub_user_id s = userId \<and> sub_question_id s = qi) (subscriptions w) \<noteq> None)"

subsection \<open>Voting\<close>

definition voteValue :: "vote_type \<Rightarrow> int" where
  "voteValue voteType = (if voteType = Up then 1 else - 1)"

definition voteAnswer :: "world \<Rightarrow> date \<Rightarrow> int \<Rightarrow> string \<Rightarrow> vote_type \<Rightarrow> world \<times> bool" where
  "voteAnswer w now userId answerId voteType =
     (case getAnswerWithVotes w answerId of
        None \<Rightarrow> (w, False)
      | Some a \<Rightarrow>
          if a_user_id a = userId then (w, False)
          else (case ObjectId answerId of
                  None \<Rightarrow> (w, False)
                | Some ai \<Rightarrow>
                    (let w1 = w\<lparr>votes := delete_one
                                 (\<lambda>v. v_user_id v = userId \<and> v_answer_id v = ai) (votes w)\<rparr>;
                         w2 = w1\<lparr>votes := votes w1 @
                                 [\<lparr>v_user_id = userId, v_answer_id = ai, v_vote_type = voteType,
                                   v_created_at = now\<rparr>]\<rparr>;
                         w3 = w2\<lparr>answers := update_one (\<lambda>a. a_id a = ai)
                                 (\<lambda>a. a\<lparr>a_votes := a_votes a + voteValue voteType\<rparr>) (answers w2)\<rparr>
                     in (w3, True))))"

definition getUserVote :: "world \<Rightarrow> int \<Rightarrow> oid \<Rightarrow> vote_type option" where
  "getUserVote w userId ai =
     (case find_one (\<lambda>v. v_user_id v = userId \<and> v_answer_id v = ai) (votes w) of
        None \<Rightarrow> None
      | Some v \<Rightarrow> Some (v_vote_type v))"

section \<open>Handlers\<close>

text \<open>
  A handler takes the state, the sender of the update and the payload of the button or
  message, and returns the new state with the replies made to the sender, in order.
  Replies are identified by the leading words of their text. The replies themselves and
  the post to the public channel are taken to succeed, and the clock is read once for
  the whole handler.
\<close>

datatype reply = AnswerCbQuery string | EditMessageText string | Reply string

subsection \<open>Approval and rejection by the operator\<close>

definition action_APPROVE :: "int \<Rightarrow> world \<Rightarrow> date \<Rightarrow> int \<Rightarrow> string \<Rightarrow> world \<times> reply list" where
  "action_APPROVE ADMIN_ID w now from_id questionId =
     (if from_id \<noteq> ADMIN_ID then (w, [AnswerCbQuery ''Access denied''])
      else case getQuestion w questionId of
        None \<Rightarrow> (w, [AnswerCbQuery ''Question not found''])
      | Some question \<Rightarrow>
          (let message_id = next_message_id w;
               w1 = w\<lparr>channel_posts := channel_posts w @ [(message_id, q_id question)],
                      next_message_id := message_id + 1\<rparr>;
               w2 = fst (approveQuestion w1 questionId message_id);
               w3 = fst (createNotification w2 now (q_user_id question)
                          (Question_approved (q_question question) message_id))
           in (w3, [EditMessageText ''Question Approved!'', AnswerCbQuery []])))"

definition action_REJECT :: "int \<Rightarrow> world \<Rightarrow> int \<Rightarrow> string \<Rightarrow> world \<times> reply list" where
  "action_REJECT ADMIN_ID w from_id questionId =
     (if from_id \<noteq> ADMIN_ID then (w, [AnswerCbQuery ''Access denied''])
      else case getQuestion w questionId of
        None \<Rightarrow> (w, [AnswerCbQuery ''Question not found''])
      | Some question \<Rightarrow>
          (case ObjectId questionId of
             None \<Rightarrow> (w, [AnswerCbQuery ''Error rejecting question''])
           | Some qi \<Rightarrow>
               (let w1 = w\<lparr>questions := delete_one (\<lambda>q. q_id q = qi) (questions w)\<rparr>
                in case sendMessage w1 (q_user_id question) Rejection_notice of
                     None \<Rightarrow> (w1, [EditMessageText ''Question Rejected!'',
                                    AnswerCbQuery ''Error rejecting question''])
                   | Some w2 \<Rightarrow> (w2, [EditMessageText ''Question Rejected!'', AnswerCbQuery []]))))"

subsection \<open>Voting\<close>

text \<open>
  The handlers of \<open>VOTE_UP\<close> and \<open>VOTE_DOWN\<close> differ in the vote type and in the
  acknowledgement only.
\<close>

definition vote_action ::
  "vote_type \<Rightarrow> string \<Rightarrow> world \<Rightarrow> date \<Rightarrow> int \<Rightarrow> string \<Rightarrow> world \<times> reply list" where
  "vote_action voteType ack w now userId answerId =
     (let w1 = fst (voteAnswer w now userId answerId voteType);
          success = snd (voteAnswer w now userId answerId voteType) in
      if success then
        (case getAnswerWithVotes w1 answerId of
           None \<Rightarrow> (w1, [AnswerCbQuery ack])
         | Some a \<Rightarrow>
             if a_user_id a \<noteq> userId
             then (fst (createNotification w1 now (a_user_id a)
                          (Vote_received answerId (a_answer a) voteType)),
                   [AnswerCbQuery ack])
             else (w1, [AnswerCbQuery ack]))
      else (w1, [AnswerCbQuery ''Cannot vote on your own answer'']))"

definition action_VOTE_UP :: "world \<Rightarrow> date \<Rightarrow> int \<Rightarrow> string \<Rightarrow> world \<times> reply list" where
  "action_VOTE_UP = vote_action Up ''Upvoted!''"

definition action_VOTE_DOWN :: "world \<Rightarrow> date \<Rightarrow> int \<Rightarrow> string \<Rightarrow> world \<times> reply list" where
  "action_VOTE_DOWN = vote_action Down ''Downvoted!''"

definition action_VOTE_NONE :: "world \<Rightarrow> int \<Rightarrow> string \<Rightarrow> world \<times> reply list" where
  "action_VOTE_NONE w userId answerId =
     (case ObjectId answerId of
        None \<Rightarrow> (w, [AnswerCbQuery ''Error removing vote''])
      | Some ai \<Rightarrow>
          (let w1 = w\<lparr>votes := delete_one (\<lambda>v. v_user_id v = userId \<and> v_answer_id v = ai)
                        (votes w)\<rparr>;
               currentVotes = (case getAnswerWithVotes w1 answerId of
                                 None \<Rightarrow> 0
                               | Some a \<Rightarrow> a_votes a)
           in (w1, [AnswerCbQuery (''Vote removed! Current votes: '' @ number_toString currentVotes)])))"

subsection \<open>Subscriptions\<close>

definition action_SUBSCRIBE :: "world \<Rightarrow> date \<Rightarrow> int \<Rightarrow> string \<Rightarrow> world \<times> reply list" where
  "action_SUBSCRIBE w now userId questionId =
     (let w1 = fst (subscribeToQuestion w now userId questionId);
          success = snd (subscribeToQuestion w now userId questionId) in
      if success then (w1, [AnswerCbQuery ''Subscribed to question!''])
      else (w1, [AnswerCbQuery ''Subscription failed'']))"

definition action_UNSUBSCRIBE :: "world \<Rightarrow> int \<Rightarrow> string \<Rightarrow> world \<times> reply list" where
  "action_UNSUBSCRIBE w userId questionId =
     (let w1 = fst (unsubscribeFromQuestion w userId questionId);
          success = snd (unsubscribeFromQuestion w userId questionId) in
      if success then (w1, [AnswerCbQuery ''Unsubscribed from question''])
      else (w1, [AnswerCbQuery ''Unsubscribe failed'']))"

text \<open>
  The two handlers are registered on the patterns \<open>/SUBSCRIBE_(.+)/\<close> and
  \<open>/UNSUBSCRIBE_(.+)/\<close>, in this order. A pattern is not anchored: it matches at the
  first position of the button's data where the literal is followed by at least one
  character that is no line terminator, and captures the characters up to the next line
  terminator. The first registered handler whose pattern matches runs, and no other.
\<close>

definition captured :: "string \<Rightarrow> string" where
  "captured rest = takeWhile (\<lambda>c. c \<noteq> CHR 0x0A \<and> c \<noteq> CHR 0x0D) rest"

fun match_after :: "string \<Rightarrow> string \<Rightarrow> string option" where
  "match_after literal [] = None"
| "match_after literal (c # cs) =
     (if take (length literal) (c # cs) = literal
         \<and> captured (drop (length literal) (c # cs)) \<noteq> []
      then Some (captured (drop (length literal) (c # cs)))
      else match_after literal cs)"

definition dispatch_subscription ::
  "world \<Rightarrow> date \<Rightarrow> int \<Rightarrow> string \<Rightarrow> (world \<times> reply list) option" where
  "dispatch_subscription w now userId data =
     (case match_after ''SUBSCRIBE_'' data of
        Some questionId \<Rightarrow> Some (action_SUBSCRIBE w now userId questionId)
      | None \<Rightarrow>
          (case match_after ''UNSUBSCRIBE_'' data of
             Some questionId \<Rightarrow> Some (action_UNSUBSCRIBE w userId questionId)
           | None \<Rightarrow> None))"

subsection \<open>Text messages\<close>

text \<open>
  The loop over the subscribers of an answered question. The test reads
  \<open>question.user_id\<close> only for a subscriber other than the answerer; when the question is
  gone that read throws, which ends the handler with the state reached so far (\<open>Inl\<close>).
\<close>

fun notify_subscribers ::
  "world \<Rightarrow> date \<Rightarrow> question option \<Rightarrow> int \<Rightarrow> notification_payload \<Rightarrow> int list \<Rightarrow> world + world" where
  "notify_subscribers w now question userId p [] = Inr w"
| "notify_subscribers w now question userId p (subscriberId # rest) =
     (if subscriberId \<noteq> userId then
        (case question of
           None \<Rightarrow> Inl w
         | Some q \<Rightarrow>
             if subscriberId \<noteq> q_user_id q
             then notify_subscribers (fst (createNotification w now subscriberId p)) now
                    question userId p rest
             else notify_subscribers w now question userId p rest)
      else notify_subscribers w now question userId p rest)"

text \<open>
  The branch of the message handler for a session in step \<open>awaiting_answer\<close>. Every
  session saved with this step carries a question id; for a session without one the
  model does nothing.
\<close>

definition awaiting_answer ::
  "world \<Rightarrow> date \<Rightarrow> int \<Rightarrow> jsstring \<Rightarrow> session_data \<Rightarrow> jsstring \<Rightarrow> world \<times> reply list" where
  "awaiting_answer w now userId from_name session userMessage =
     (let filterResult = contentFilter userMessage in
      if \<not> allowed filterResult then (w, [Reply (''Answer Blocked: '' @ reason filterResult)])
      else case s_questionId session of
        None \<Rightarrow> (w, [])
      | Some questionId \<Rightarrow>
          (let created = createAnswer w now
                 \<lparr>ad_questionId = questionId, ad_userId = userId, ad_username = from_name,
                   ad_answer = userMessage, ad_channelMessageId = s_channelMessageId session\<rparr>
           in case snd created of
                None \<Rightarrow> (fst created, [Reply ''Failed to save answer. Please try again.''])
              | Some answerId \<Rightarrow>
                  (let w1 = fst (subscribeToQuestion (fst created) now userId questionId);
                       question = getQuestion w1 questionId;
                       p = New_answer questionId userMessage userId;
                       w2 = (case question of
                               None \<Rightarrow> w1
                             | Some q \<Rightarrow>
                                 if q_user_id q \<noteq> userId
                                 then fst (createNotification w1 now (q_user_id q) p)
                                 else w1);
                       subscribers = getSubscribers w2 questionId
                   in case notify_subscribers w2 now question userId p subscribers of
                        Inl w3 \<Rightarrow> (w3, [Reply ''An error occurred. Please try again.''])
                      | Inr w3 \<Rightarrow> (deleteSession w3 userId, [Reply ''Answer Posted!'']))))"

definition on_text ::
  "int \<Rightarrow> world \<Rightarrow> date \<Rightarrow> int \<Rightarrow> jsstring \<Rightarrow> jsstring \<Rightarrow> world \<times> reply list" where
  "on_text ADMIN_ID w now userId from_name userMessage =
     (case getSession w userId of
        None \<Rightarrow>
          if starts_with userMessage (js ''/'') then (w, [])
          else (w, [Reply ''Please use /start to begin or use the menu buttons.''])
      | Some session \<Rightarrow>
          if step session = Awaiting_question then
            (let filterResult = contentFilter userMessage in
             if \<not> allowed filterResult
             then (w, [Reply (''Question Blocked: '' @ reason filterResult)])
             else (saveSession w now userId
                     (session\<lparr>s_question := Some userMessage, step := Awaiting_topic\<rparr>),
                   [Reply ''Choose Question Category'']))
          else if step session = Editing_question then
            (let filterResult = contentFilter userMessage in
             if \<not> allowed filterResult
             then (w, [Reply (''Question Blocked: '' @ reason filterResult)])
             else (saveSession w now userId
                     (session\<lparr>s_question := Some userMessage, step := Confirm_question\<rparr>),
                   [Reply ''Question Updated'']))
          else if step session = Awaiting_topic \<and> waitingForCustomTopic session then
            (saveSession w now userId
               (session\<lparr>s_topic := Some userMessage, step := Confirm_question,
                        waitingForCustomTopic := False\<rparr>),
             [Reply ''Question Preview''])
          else if step session = Awaiting_feedback then
            (case getUser w userId of
               None \<Rightarrow> (w, [Reply ''Feedback Sent!'', Reply ''An error occurred. Please try again.''])
             | Some user \<Rightarrow>
                 (case sendMessage w ADMIN_ID (New_feedback userMessage) of
                    None \<Rightarrow> (w, [Reply ''Feedback Sent!'',
                                  Reply ''An error occurred. Please try again.''])
                  | Some w1 \<Rightarrow> (deleteSession w1 userId, [Reply ''Feedback Sent!''])))
          else if step session = Awaiting_answer then
            awaiting_answer w now userId from_name session userMessage
          else (w, []))"

section \<open>The writes of the program\<close>

text \<open>
  Every write to the store and every message sent is made by one of the helper
  functions above or by one of the two \<open>deleteOne\<close> calls made directly by the
  handlers of \<open>REJECT\<close> and \<open>VOTE_NONE\<close>; \<open>updateUserStats\<close> is called by
  \<open>approveQuestion\<close> and \<open>createAnswer\<close> only, both times with the default increment.
  A handler is a sequence of such writes, so the states the system can be in are those
  reached from the empty store by a sequence of the operations below, which also let a
  user block or unblock the bot.
\<close>

datatype operation =
  Op_createUser date int jsstring
  | Op_createQuestion date int jsstring jsstring jsstring
  | Op_approveQuestion string nat
  | Op_deleteQuestion string
  | Op_createAnswer date answerData
  | Op_saveSession date int session_data
  | Op_deleteSession int
  | Op_createNotification date int notification_payload
  | Op_markNotificationAsRead string
  | Op_markAllNotificationsAsRead int
  | Op_subscribeToQuestion date int string
  | Op_unsubscribeFromQuestion int string
  | Op_voteAnswer date int string vote_type
  | Op_removeVote int string
  | Op_sendMessage int message
  | Op_post_to_channel oid
  | Op_block int
  | Op_unblock int

fun perform :: "world \<Rightarrow> operation \<Rightarrow> world" where
  "perform w (Op_createUser now userId username_arg) = fst (createUser w now userId username_arg)"
| "perform w (Op_createQuestion now userId username_arg question_arg topic) =
     fst (createQuestion w now userId username_arg question_arg topic)"
| "perform w (Op_approveQuestion questionId channelMessageId) =
     fst (approveQuestion w questionId channelMessageId)"
| "perform w (Op_deleteQuestion questionId) =
     (case ObjectId questionId of
        None \<Rightarrow> w
      | Some qi \<Rightarrow> w\<lparr>questions := delete_one (\<lambda>q. q_id q = qi) (questions w)\<rparr>)"
| "perform w (Op_createAnswer now d) = fst (createAnswer w now d)"
| "perform w (Op_saveSession now userId sessionData) = saveSession w now userId sessionData"
| "perform w (Op_deleteSession userId) = deleteSession w userId"
| "perform w (Op_createNotification now userId p) = fst (createNotification w now userId p)"
| "perform w (Op_markNotificationAsRead notificationId) =
     fst (markNotificationAsRead w notificationId)"
| "perform w (Op_markAllNotificationsAsRead userId) = fst (markAllNotificationsAsRead w userId)"
| "perform w (Op_subscribeToQuestion now userId questionId) =
     fst (subscribeToQuestion w now userId questionId)"
| "perform w (Op_unsubscribeFromQuestion userId questionId) =
     fst (unsubscribeFromQuestion w userId questionId)"
| "perform w (Op_voteAnswer now userId answerId voteType) =
     fst (voteAnswer w now userId answerId voteType)"
| "perform w (Op_removeVote userId answerId) =
     (case ObjectId answerId of
        None \<Rightarrow> w
      | Some ai \<Rightarrow> w\<lparr>votes := delete_one (\<lambda>v. v_user_id v = userId \<and> v_answer_id v = ai)
                       (votes w)\<rparr>)"
| "perform w (Op_sendMessage chat m) =
     (case sendMessage w chat m of None \<Rightarrow> w | Some w' \<Rightarrow> w')"
| "perform w (Op_post_to_channel qi) =
     w\<lparr>channel_posts := channel_posts w @ [(next_message_id w, qi)],
       next_message_id := next_message_id w + 1\<rparr>"
| "perform w (Op_block userId) = w\<lparr>blocked := userId # blocked w\<rparr>"
| "perform w (Op_unblock userId) = w\<lparr>blocked := removeAll userId (blocked w)\<rparr>"

definition run :: "operation list \<Rightarrow> world" where
  "run ops = foldl perform empty_world ops"

text \<open>A state is written from another when a sequence of operations leads there.\<close>

definition written :: "world \<Rightarrow> world \<Rightarrow> bool" where
  "written w w' = (\<exists>ops. w' = foldl perform w ops)"

section \<open>Properties stated by the specification\<close>

subsection \<open>Moderation rules\<close>

text \<open>
  A text contains a banned substring, matched case-insensitively, when some stretch of
  it is equal to a banned word once both are put in lower case.
\<close>

definition occurs_in :: "jsstring \<Rightarrow> jsstring \<Rightarrow> bool" where
  "occurs_in u t = (\<exists>before after. t = before @ u @ after)"

definition contains_banned :: "jsstring \<Rightarrow> bool" where
  "contains_banned t =
     (\<exists>word \<in> set bannedWords. \<exists>u. occurs_in u t \<and> toLowerCase u = toLowerCase word)"

text \<open>A run of the same character repeated more than ten times.\<close>

definition has_long_run :: "jsstring \<Rightarrow> bool" where
  "has_long_run t = (\<exists>c n. 10 < n \<and> occurs_in (replicate n c) t)"

definition has_long_run_of_matched :: "jsstring \<Rightarrow> bool" where
  "has_long_run_of_matched t =
     (\<exists>c n. \<not> line_terminator c \<and> 10 < n \<and> occurs_in (replicate n c) t)"

text \<open>
  The characters of a text: a high surrogate followed by a low surrogate is one
  character beyond U+FFFF, any other code unit is a character by itself.
\<close>

fun code_points :: "jsstring \<Rightarrow> nat list" where
  "code_points (h # l # t) =
     (if 55296 \<le> h \<and> h \<le> 56319 \<and> 56320 \<le> l \<and> l \<le> 57343
      then (65536 + (h - 55296) * 1024 + (l - 56320)) # code_points t
      else h # code_points (l # t))"
| "code_points t = t"

text \<open>The uppercase letters among the first 256 characters: A to Z, and U+00C0 to U+00DE
  without the multiplication sign.\<close>

definition uppercase_letter :: "nat \<Rightarrow> bool" where
  "uppercase_letter c = (65 \<le> c \<and> c \<le> 90 \<or> 192 \<le> c \<and> c \<le> 222 \<and> c \<noteq> 215)"

text \<open>
  Three texts: eleven grinning faces (U+1F600, two code units each); eleven times the
  letters A and O with diaeresis (U+00C4, U+00D6); and 501 times a grinning face followed
  by a beaming face (U+1F601), which is 1002 characters in 2004 code units.
\<close>

definition eleven_faces :: jsstring where
  "eleven_faces = concat (replicate 11 [55357, 56832])"

definition umlauts :: jsstring where
  "umlauts = concat (replicate 11 [196, 214])"

definition many_faces :: jsstring where
  "many_faces = concat (replicate 501 [55357, 56832, 55357, 56833])"

text \<open>The verdict as the specification words it, with the four rules in their order.\<close>

definition evaluate_as_specified :: "jsstring \<Rightarrow> filter_result" where
  "evaluate_as_specified t =
     (if contains_banned t
      then \<lparr>allowed = False, reason = ''Contains banned content''\<rparr>
      else if length t > 2000
      then \<lparr>allowed = False, reason = ''Content too long (max 2000 characters)''\<rparr>
      else if capitalRatio t > 7 / 10 \<and> length t > 20
      then \<lparr>allowed = False, reason = ''Too many capital letters''\<rparr>
      else if has_long_run_of_matched t
      then \<lparr>allowed = False, reason = ''Repetitive text detected''\<rparr>
      else \<lparr>allowed = True, reason = ''''\<rparr>)"

subsection \<open>Records of a pair, counters and invariants\<close>

definition vote_records :: "world \<Rightarrow> int \<Rightarrow> oid \<Rightarrow> vote list" where
  "vote_records w userId ai =
     filter (\<lambda>v. v_user_id v = userId \<and> v_answer_id v = ai) (votes w)"

definition subscription_records :: "world \<Rightarrow> int \<Rightarrow> oid \<Rightarrow> subscription list" where
  "subscription_records w userId qi =
     filter (\<lambda>s. sub_user_id s = userId \<and> sub_question_id s = qi) (subscriptions w)"

text \<open>The unique indexes on (user, answer) of the votes and (user, question) of the subscriptions.\<close>

definition unique_votes :: "world \<Rightarrow> bool" where
  "unique_votes w = distinct (map (\<lambda>v. (v_user_id v, v_answer_id v)) (votes w))"

definition unique_subscriptions :: "world \<Rightarrow> bool" where
  "unique_subscriptions w =
     distinct (map (\<lambda>s. (sub_user_id s, sub_question_id s)) (subscriptions w))"

text \<open>The aggregate vote count of the answer with a given id (0 when there is none).\<close>

definition vote_count :: "world \<Rightarrow> string \<Rightarrow> int" where
  "vote_count w answerId = (case getAnswerWithVotes w answerId of None \<Rightarrow> 0 | Some a \<Rightarrow> a_votes a)"

text \<open>The number of \<open>new_answer\<close> notifications stored for a user.\<close>

definition new_answer_count :: "world \<Rightarrow> int \<Rightarrow> nat" where
  "new_answer_count w userId =
     length (filter (\<lambda>n. n_user_id n = userId \<and> type_of_payload (n_payload n) = T_new_answer)
               (notifications w))"

definition stats_consistent :: "user \<Rightarrow> bool" where
  "stats_consistent u = (points u = 5 * (questions_asked u + answers_given u))"

definition award :: "stat_field \<Rightarrow> user \<Rightarrow> user" where
  "award f u =
     (if f = F_questions_asked
      then u\<lparr>points := points u + 5, questions_asked := questions_asked u + 1\<rparr>
      else if f = F_answers_given
      then u\<lparr>points := points u + 5, answers_given := answers_given u + 1\<rparr>
      else u)"

text \<open>
  The users after an operation, as the specification describes them: a new user starts
  with no points, no question and no answer; the approval of a question awards its
  author, the creation of an answer awards the answerer; no other operation touches a
  user.
\<close>

definition users_after :: "world \<Rightarrow> operation \<Rightarrow> user list" where
  "users_after w op =
     (case op of
        Op_createUser now userId username_arg \<Rightarrow>
          if \<exists>u \<in> set (users w). u_user_id u = userId then users w
          else users w @ [new_user now userId username_arg]
      | Op_approveQuestion questionId channelMessageId \<Rightarrow>
          (case getQuestion w questionId of
             None \<Rightarrow> users w
           | Some q \<Rightarrow>
               update_one (\<lambda>u. u_user_id u = q_user_id q) (award F_questions_asked) (users w))
      | Op_createAnswer now d \<Rightarrow>
          (case ObjectId (ad_questionId d) of
             None \<Rightarrow> users w
           | Some qi \<Rightarrow>
               update_one (\<lambda>u. u_user_id u = ad_userId d) (award F_answers_given) (users w))
      | _ \<Rightarrow> users w)"

section \<open>Example states\<close>

text \<open>
  Alice (100), Bob (200) and Carol (300) have started the bot; the operator is user 1.
  Alice's question, with id 0, is first pending, then approved and published as message 1
  of the channel; Bob's answer to it has id 2.
\<close>

definition question0 :: string where
  "question0 = ''000000000000000000000000''"

definition answer2 :: string where
  "answer2 = ''000000000000000000000002''"

definition ops_pending :: "operation list" where
  "ops_pending =
     [Op_createUser 1 100 (js ''alice''), Op_createUser 2 200 (js ''bob''),
      Op_createUser 3 300 (js ''carol''),
      Op_createQuestion 4 100 (js ''alice'') (js ''Is this normal???'') (js ''Technology'')]"

definition ops_approved :: "operation list" where
  "ops_approved =
     ops_pending @
     [Op_post_to_channel 0, Op_approveQuestion question0 1,
      Op_createNotification 5 100 (Question_approved (js ''Is this normal???'') 1)]"

definition ops_answered :: "operation list" where
  "ops_answered =
     ops_approved @
     [Op_createAnswer 6 \<lparr>ad_questionId = question0, ad_userId = 200, ad_username = js ''bob'',
        ad_answer = js ''Yes, it is.'', ad_channelMessageId = Some 1\<rparr>,
      Op_subscribeToQuestion 6 200 question0]"

definition ops_answering :: "operation list" where
  "ops_answering =
     ops_approved @
     [Op_subscribeToQuestion 6 300 question0, Op_subscribeToQuestion 6 100 question0,
      Op_saveSession 7 200 \<lparr>step = Awaiting_answer, s_question = None, s_topic = None,
        waitingForCustomTopic = False, s_questionId = Some question0,
        s_questionText = Some (js ''Is this normal???''), s_channelMessageId = Some 1\<rparr>]"

text \<open>
  The state after the operator rejects Alice's approved question while Bob's session for
  answering it is open: the question is deleted and Alice has the rejection notice.
\<close>

definition ops_question_gone :: "operation list" where
  "ops_question_gone =
     ops_answering @ [Op_deleteQuestion question0, Op_sendMessage 100 Rejection_notice]"

text \<open>The state after Bob has then sent his answer.\<close>

definition ops_answer_failed :: "operation list" where
  "ops_answer_failed =
     ops_question_gone @
     [Op_createAnswer 8 \<lparr>ad_questionId = question0, ad_userId = 200, ad_username = js ''bob'',
        ad_answer = js ''Yes, it is.'', ad_channelMessageId = Some 1\<rparr>,
      Op_subscribeToQuestion 8 200 question0]"

section \<open>The content filter\<close>

subsection \<open>The searches of the filter find what they are meant to find\<close>

lemma starts_with_iff: "starts_with s w \<longleftrightarrow> (\<exists>after. s = w @ after)"
  unfolding starts_with_def
proof
  assume "take (length w) s = w"
  then have "s = w @ drop (length w) s" by (metis append_take_drop_id)
  then show "\<exists>after. s = w @ after" ..
next
  assume "\<exists>after. s = w @ after"
  then show "take (length w) s = w" by auto
qed

lemma str_includes_iff: "str_includes s w \<longleftrightarrow> occurs_in w s"
proof (induction s)
  case Nil
  show ?case by (auto simp: occurs_in_def)
next
  case (Cons c cs)
  have "occurs_in w (c # cs) \<longleftrightarrow> (\<exists>after. c # cs = w @ after) \<or> occurs_in w cs"
  proof
    assume "occurs_in w (c # cs)"
    then obtain before after where e: "c # cs = before @ w @ after"
      by (auto simp: occurs_in_def)
    show "(\<exists>after. c # cs = w @ after) \<or> occurs_in w cs"
    proof (cases before)
      case Nil
      with e show ?thesis by auto
    next
      case (Cons b bs)
      with e have "cs = bs @ w @ after" by simp
      then show ?thesis by (auto simp: occurs_in_def)
    qed
  next
    assume "(\<exists>after. c # cs = w @ after) \<or> occurs_in w cs"
    then show "occurs_in w (c # cs)"
    proof
      assume "\<exists>after. c # cs = w @ after"
      then obtain after where "c # cs = [] @ w @ after" by auto
      then show ?thesis unfolding occurs_in_def by blast
    next
      assume "occurs_in w cs"
      then obtain before after where "cs = before @ w @ after" by (auto simp: occurs_in_def)
      then have "c # cs = (c # before) @ w @ after" by simp
      then show ?thesis unfolding occurs_in_def by blast
    qed
  qed
  with Cons show ?case by (simp add: starts_with_iff)
qed

lemma banned_loop_iff: "banned_loop ws l \<longleftrightarrow> (\<exists>word \<in> set ws. str_includes l word)"
  by (induction ws) auto

lemma occurs_in_map:
  "occurs_in w (map f t) \<longleftrightarrow> (\<exists>u. occurs_in u t \<and> map f u = w)"
proof
  assume "occurs_in w (map f t)"
  then obtain before after where "map f t = before @ (w @ after)" by (auto simp: occurs_in_def)
  then have "\<exists>b r. t = b @ r \<and> before = map f b \<and> w @ after = map f r"
    by (simp only: map_eq_append_conv)
  then obtain b r where t: "t = b @ r" and r: "map f r = w @ after" by auto
  from r have "\<exists>u a. r = u @ a \<and> w = map f u \<and> after = map f a"
    by (simp only: map_eq_append_conv)
  then obtain u a where "r = u @ a" and "map f u = w" by auto
  with t have "occurs_in u t \<and> map f u = w" by (auto simp: occurs_in_def)
  then show "\<exists>u. occurs_in u t \<and> map f u = w" ..
next
  assume "\<exists>u. occurs_in u t \<and> map f u = w"
  then obtain u before after where "t = before @ u @ after" and "map f u = w"
    by (auto simp: occurs_in_def)
  then have "map f t = map f before @ w @ map f after" by simp
  then show "occurs_in w (map f t)" unfolding occurs_in_def by blast
qed

lemma bannedWords_lower: "\<forall>word \<in> set bannedWords. toLowerCase word = word"
  by (simp add: bannedWords_def js_def toLowerCase_def lower_unit_def)

lemma banned_loop_contains: "banned_loop bannedWords (toLowerCase t) \<longleftrightarrow> contains_banned t"
  unfolding banned_loop_iff str_includes_iff contains_banned_def
  using bannedWords_lower by (auto simp: toLowerCase_def occurs_in_map)

lemma take_replicate_run:
  "10 < n \<Longrightarrow> take 10 (replicate (n - 1) c @ after) = replicate 10 c"
  by (simp add: min_def)

lemma repetitive_of_run:
  "10 < n \<Longrightarrow> \<not> line_terminator c \<Longrightarrow> repetitivePattern_test (before @ replicate n c @ after)"
proof (induction before)
  case Nil
  then obtain m where n: "n = Suc m" by (cases n) auto
  with Nil have "take 10 (replicate m c @ after) = replicate 10 c"
    using take_replicate_run [of n c after] by simp
  with Nil n show ?case by simp
next
  case (Cons b bs)
  then show ?case by simp
qed

lemma run_of_repetitive:
  "repetitivePattern_test t \<Longrightarrow> has_long_run_of_matched t"
proof (induction t)
  case Nil
  then show ?case by simp
next
  case (Cons c cs)
  show ?case
  proof (cases "\<not> line_terminator c \<and> take 10 cs = replicate 10 c")
    case True
    then have "cs = replicate 10 c @ drop 10 cs" by (metis append_take_drop_id)
    then have "c # cs = [] @ replicate 11 c @ drop 10 cs"
      by (simp add: numeral_eq_Suc)
    moreover have "(10::nat) < 11" by simp
    ultimately show ?thesis using True unfolding has_long_run_of_matched_def occurs_in_def
      by blast
  next
    case False
    with Cons have "has_long_run_of_matched cs" by auto
    then obtain d n before after where "\<not> line_terminator d" "10 < n"
      "cs = before @ replicate n d @ after"
      by (auto simp: has_long_run_of_matched_def occurs_in_def)
    then have "c # cs = (c # before) @ replicate n d @ after" by simp
    with \<open>\<not> line_terminator d\<close> \<open>10 < n\<close> show ?thesis
      unfolding has_long_run_of_matched_def occurs_in_def by blast
  qed
qed

lemma repetitive_iff: "repetitivePattern_test t \<longleftrightarrow> has_long_run_of_matched t"
proof
  assume "has_long_run_of_matched t"
  then show "repetitivePattern_test t"
    by (auto simp: has_long_run_of_matched_def occurs_in_def intro: repetitive_of_run)
qed (rule run_of_repetitive)

subsection \<open>Texts without ASCII\<close>

lemma str_includes_first: "str_includes s (a # w) \<Longrightarrow> a \<in> set s"
proof (induction s)
  case Nil
  then show ?case by simp
next
  case (Cons c cs)
  then show ?case by (auto simp: starts_with_def)
qed

lemma bannedWords_units:
  "bannedWords =
     [[115, 112, 97, 109], [115, 99, 97, 109], [104, 116, 116, 112, 58, 47, 47],
      [104, 116, 116, 112, 115, 58, 47, 47],
      [116, 101, 108, 101, 103, 114, 97, 109, 46, 109, 101],
      [116, 46, 109, 101, 47, 106, 111, 105, 110, 99, 104, 97, 116],
      [98, 105, 116, 46, 108, 121], [116, 105, 110, 121, 117, 114, 108]]"
  by (simp add: bannedWords_def js_def)

lemma banned_loop_first:
  "banned_loop bannedWords l \<Longrightarrow> 115 \<in> set l \<or> 104 \<in> set l \<or> 116 \<in> set l \<or> 98 \<in> set l"
  unfolding bannedWords_units
  by (auto dest: str_includes_first split: if_splits)

lemma toLowerCase_beyond_ascii: "\<forall>c \<in> set t. 128 \<le> c \<Longrightarrow> toLowerCase t = t"
  by (induction t) (simp_all add: toLowerCase_def lower_unit_def)

lemma contentFilter_beyond_ascii:
  assumes "\<forall>c \<in> set t. 128 \<le> c"
  shows "contentFilter t =
    (if length t > 2000
     then \<lparr>allowed = False, reason = ''Content too long (max 2000 characters)''\<rparr>
     else if repetitivePattern_test t
     then \<lparr>allowed = False, reason = ''Repetitive text detected''\<rparr>
     else \<lparr>allowed = True, reason = ''''\<rparr>)"
proof -
  have low: "toLowerCase t = t"
    using assms by (rule toLowerCase_beyond_ascii)
  have "\<not> banned_loop bannedWords t"
    using banned_loop_first [of t] assms by fastforce
  moreover have "filter is_capital t = []"
    using assms by (auto simp: filter_empty_conv is_capital_def)
  then have "capitalRatio t = 0" by (simp add: capitalRatio_def capitalLetters_def)
  ultimately show ?thesis by (simp add: contentFilter_def low)
qed

lemma repetitive_other_head:
  "x \<noteq> c \<Longrightarrow> repetitivePattern_test (c # x # xs) = repetitivePattern_test (x # xs)"
  by (simp add: numeral_eq_Suc)

lemma alternating_not_repetitive:
  assumes "a \<noteq> b"
  shows "\<not> repetitivePattern_test (concat (replicate n [a, b]))
    \<and> \<not> repetitivePattern_test (b # concat (replicate n [a, b]))"
proof (induction n)
  case 0
  show ?case by (simp add: numeral_eq_Suc)
next
  case (Suc n)
  have "repetitivePattern_test (a # b # xs) = repetitivePattern_test (b # xs)" for xs
    using assms by (intro repetitive_other_head) simp
  moreover have "repetitivePattern_test (b # a # xs) = repetitivePattern_test (a # xs)" for xs
    using assms by (intro repetitive_other_head)
  ultimately show ?case using Suc by (simp del: repetitivePattern_test.simps)
qed

lemma code_points_pairs:
  assumes "55296 \<le> h" "h \<le> 56319" "56320 \<le> l" "l \<le> 57343"
  shows "code_points (concat (replicate n [h, l])) =
    replicate n (65536 + (h - 55296) * 1024 + (l - 56320))"
  using assms by (induction n) simp_all

lemma code_points_two_pairs:
  assumes "55296 \<le> h" "h \<le> 56319" "56320 \<le> l" "l \<le> 57343" "56320 \<le> l'" "l' \<le> 57343"
  shows "code_points (concat (replicate n [h, l, h, l'])) =
    concat (replicate n [65536 + (h - 55296) * 1024 + (l - 56320),
      65536 + (h - 55296) * 1024 + (l' - 56320)])"
  using assms by (induction n) simp_all

lemma length_concat_replicate: "length (concat (replicate n xs)) = n * length xs"
  by (induction n) simp_all

lemma set_concat_replicate: "set (concat (replicate n xs)) \<subseteq> set xs"
  by (induction n) auto

lemma eleven_faces_allowed: "allowed (contentFilter eleven_faces)"
proof -
  have "\<forall>c \<in> set eleven_faces. 128 \<le> c"
    using set_concat_replicate [of 11 "[55357, 56832]"] by (auto simp: eleven_faces_def)
  moreover have "\<not> repetitivePattern_test eleven_faces"
    using alternating_not_repetitive [of 55357 56832 11] by (simp add: eleven_faces_def)
  moreover have "length eleven_faces = 22"
    by (simp add: eleven_faces_def length_concat_replicate)
  ultimately show ?thesis by (simp add: contentFilter_beyond_ascii)
qed

lemma eleven_faces_run: "has_long_run (code_points eleven_faces)"
proof -
  have "code_points eleven_faces = [] @ replicate 11 128512 @ []"
    using code_points_pairs [of 55357 56832 11] by (simp add: eleven_faces_def)
  moreover have "(10::nat) < 11" by simp
  ultimately show ?thesis unfolding has_long_run_def occurs_in_def by blast
qed

lemma umlauts_allowed:
  "list_all uppercase_letter umlauts \<and> length umlauts = 22 \<and> allowed (contentFilter umlauts)"
proof -
  have s: "set umlauts \<subseteq> {196, 214}"
    using set_concat_replicate [of 11 "[196, 214]"] by (simp add: umlauts_def)
  then have up: "list_all uppercase_letter umlauts"
    by (auto simp: list_all_iff uppercase_letter_def)
  from s have "\<forall>c \<in> set umlauts. 128 \<le> c" by auto
  moreover have "\<not> repetitivePattern_test umlauts"
    using alternating_not_repetitive [of 196 214 11] by (simp add: umlauts_def)
  moreover have len: "length umlauts = 22"
    by (simp add: umlauts_def length_concat_replicate)
  ultimately show ?thesis using up by (simp add: contentFilter_beyond_ascii)
qed

lemma many_faces_too_long:
  "length (code_points many_faces) = 1002
   \<and> contentFilter many_faces =
       \<lparr>allowed = False, reason = ''Content too long (max 2000 characters)''\<rparr>"
proof -
  have "code_points many_faces = concat (replicate 501 [128512, 128513])"
    using code_points_two_pairs [of 55357 56832 56833 501] by (simp add: many_faces_def)
  then have "length (code_points many_faces) = 1002"
    by (simp add: length_concat_replicate)
  moreover have "\<forall>c \<in> set many_faces. 128 \<le> c"
    using set_concat_replicate [of 501 "[55357, 56832, 55357, 56833]"]
    by (auto simp: many_faces_def)
  moreover have "length many_faces = 2004"
    by (simp add: many_faces_def length_concat_replicate)
  ultimately show ?thesis by (simp add: contentFilter_beyond_ascii)
qed

lemma many_faces_rules:
  "\<not> contains_banned many_faces
   \<and> list_all (\<lambda>c. \<not> uppercase_letter c) (code_points many_faces)
   \<and> \<not> has_long_run (code_points many_faces)"
proof -
  have cp: "code_points many_faces = concat (replicate 501 [128512, 128513])"
    using code_points_two_pairs [of 55357 56832 56833 501] by (simp add: many_faces_def)
  have units: "\<forall>c \<in> set many_faces. 128 \<le> c"
    using set_concat_replicate [of 501 "[55357, 56832, 55357, 56833]"]
    by (auto simp: many_faces_def)
  then have "toLowerCase many_faces = many_faces"
    by (rule toLowerCase_beyond_ascii)
  moreover have "\<not> banned_loop bannedWords many_faces"
    using banned_loop_first [of many_faces] units by fastforce
  ultimately have b: "\<not> contains_banned many_faces"
    using banned_loop_contains [of many_faces] by simp
  have s: "set (code_points many_faces) \<subseteq> {128512, 128513}"
    using set_concat_replicate [of 501 "[128512, 128513]"] by (simp add: cp)
  then have u: "list_all (\<lambda>c. \<not> uppercase_letter c) (code_points many_faces)"
    by (auto simp: list_all_iff uppercase_letter_def)
  have r: "\<not> has_long_run (code_points many_faces)"
  proof
    assume "has_long_run (code_points many_faces)"
    then obtain c n where n: "10 < n" and o: "occurs_in (replicate n c) (code_points many_faces)"
      by (auto simp: has_long_run_def)
    from o n have "c \<in> set (code_points many_faces)" by (auto simp: occurs_in_def)
    with s have "\<not> line_terminator c" by (auto simp: line_terminator_def)
    with n o have "has_long_run_of_matched (code_points many_faces)"
      unfolding has_long_run_of_matched_def by blast
    then have "repetitivePattern_test (concat (replicate 501 [128512, 128513]))"
      by (simp add: repetitive_iff cp)
    then show False using alternating_not_repetitive [of 128512 128513 501] by simp
  qed
  from b u r show ?thesis by simp
qed

subsection \<open>The verdict\<close>

text \<open>
  C6, as the specification states it: the filter rejects exactly when the text contains
  a banned substring (case-insensitively), or its length exceeds 2000, or the ratio of
  uppercase letters to length exceeds 0.7 in a text longer than 20, or it contains a run
  of the same character repeated more than 10 times. This fails in four ways.
  Eleven line feeds are a run of one character and are allowed, since the dot of the
  regular expression matches no line terminator. Eleven grinning faces are a run of one
  character and are allowed, since the expression compares code units and no code unit
  of the text repeats. Twenty-two letters with diaeresis are all uppercase letters and
  are allowed, since only A to Z are counted. And 1002 characters beyond U+FFFF, with no
  banned substring, no uppercase letter and no run, are rejected as too long, since the
  length counts their 2004 code units.
\<close>

theorem contentFilter_as_stated_counterexample:
  "has_long_run (replicate 11 10) \<and> allowed (contentFilter (replicate 11 10))
   \<and> has_long_run (code_points eleven_faces) \<and> allowed (contentFilter eleven_faces)
   \<and> list_all uppercase_letter umlauts \<and> length umlauts = 22
   \<and> allowed (contentFilter umlauts)
   \<and> length (code_points many_faces) = 1002
   \<and> \<not> contains_banned many_faces
   \<and> list_all (\<lambda>c. \<not> uppercase_letter c) (code_points many_faces)
   \<and> \<not> has_long_run (code_points many_faces)
   \<and> contentFilter many_faces =
       \<lparr>allowed = False, reason = ''Content too long (max 2000 characters)''\<rparr>"
proof -
  have "replicate 11 (10::nat) = [] @ replicate 11 10 @ []" by simp
  moreover have "(10::nat) < 11" by simp
  ultimately have "has_long_run (replicate 11 10)"
    unfolding has_long_run_def occurs_in_def by blast
  moreover have "allowed (contentFilter (replicate 11 10))"
    by code_simp
  ultimately show ?thesis
    using eleven_faces_run eleven_faces_allowed umlauts_allowed many_faces_too_long
      many_faces_rules
    by simp
qed

text \<open>
  C6, amended: for every text, taken as its sequence of UTF-16 code units, the filter
  returns the verdict of the four rules taken in their order, the first rule that fires
  giving the reason: a banned substring matched case-insensitively; a number of code
  units above 2000; a ratio of the letters A to Z to the number of code units above 0.7
  in a text of more than 20 code units; a run of more than 10 copies of one code unit
  that is not a line terminator. Otherwise the text is allowed, with an empty reason.
\<close>

theorem contentFilter_as_specified: "contentFilter t = evaluate_as_specified t"
  by (simp add: contentFilter_def evaluate_as_specified_def banned_loop_contains repetitive_iff)

text \<open>C6, an instance: a link in capitals is rejected by the first rule.\<close>

theorem contentFilter_as_specified_witness:
  "evaluate_as_specified (js ''Visit HTTP://x'') =
     \<lparr>allowed = False, reason = ''Contains banned content''\<rparr>"
proof -
  have "contentFilter (js ''Visit HTTP://x'') =
     \<lparr>allowed = False, reason = ''Contains banned content''\<rparr>"
    by code_simp
  then show ?thesis
    using contentFilter_as_specified [of "js ''Visit HTTP://x''"] by simp
qed

text \<open>
  C7: the text of fifteen letters A is rejected as repetitive. It contains no banned word
  and is 15 long, so neither the length rule nor the rule on capital letters (which needs
  more than 20) applies, and the test for repetition is the one that fires.
\<close>

theorem contentFilter_fifteen_A:
  "contentFilter (js ''AAAAAAAAAAAAAAA'') =
     \<lparr>allowed = False, reason = ''Repetitive text detected''\<rparr>
   \<and> length (js ''AAAAAAAAAAAAAAA'') = 15
   \<and> \<not> banned_loop bannedWords (toLowerCase (js ''AAAAAAAAAAAAAAA''))
   \<and> \<not> 2000 < length (js ''AAAAAAAAAAAAAAA'')
   \<and> \<not> 20 < length (js ''AAAAAAAAAAAAAAA'')
   \<and> repetitivePattern_test (js ''AAAAAAAAAAAAAAA'')"
  by code_simp

section \<open>Collections\<close>

lemma find_one_None: "find_one P xs = None \<longleftrightarrow> (\<forall>x \<in> set xs. \<not> P x)"
  by (auto simp: find_one_def find_None_iff)

lemma find_one_Some: "find_one P xs = Some x \<Longrightarrow> P x \<and> x \<in> set xs"
  by (auto simp: find_one_def find_Some_iff)

lemma find_one_update_one:
  "(\<And>x. P x \<Longrightarrow> P (f x)) \<Longrightarrow> find_one P (update_one P f xs) = map_option f (find_one P xs)"
  by (induction xs) (auto simp: find_one_def)

lemma find_one_append:
  "find_one P (xs @ ys) = (case find_one P xs of None \<Rightarrow> find_one P ys | Some x \<Rightarrow> Some x)"
  by (induction xs) (auto simp: find_one_def)

lemma delete_one_none: "\<forall>x \<in> set xs. \<not> P x \<Longrightarrow> delete_one P xs = xs"
  by (induction xs) auto

lemma filter_none: "\<forall>x \<in> set xs. \<not> P x \<Longrightarrow> filter P xs = []"
  by (induction xs) auto

lemma set_delete_one: "set (delete_one P xs) \<subseteq> set xs"
  by (induction xs) auto

lemma distinct_delete_one: "distinct (map k xs) \<Longrightarrow> distinct (map k (delete_one P xs))"
proof (induction xs)
  case Nil
  then show ?case by simp
next
  case (Cons x xs)
  have "k ` set (delete_one P xs) \<subseteq> k ` set xs" using set_delete_one [of P xs] by blast
  with Cons show ?case by auto
qed

lemma delete_one_key_gone:
  "distinct (map k xs) \<Longrightarrow> \<forall>x \<in> set (delete_one (\<lambda>x. k x = v) xs). k x \<noteq> v"
proof (induction xs)
  case Nil
  then show ?case by simp
next
  case (Cons x xs)
  show ?case
  proof (cases "k x = v")
    case True
    with Cons.prems show ?thesis by (auto simp: image_iff)
  next
    case False
    with Cons show ?thesis by auto
  qed
qed

lemma filter_key_at_most_one:
  "distinct (map k xs) \<Longrightarrow> length (filter (\<lambda>x. k x = v) xs) \<le> 1"
proof (induction xs)
  case Nil
  then show ?case by simp
next
  case (Cons x xs)
  show ?case
  proof (cases "k x = v")
    case True
    with Cons.prems have "\<forall>y \<in> set xs. k y \<noteq> v" by (auto simp: image_iff)
    then have "filter (\<lambda>x. k x = v) xs = []" by (rule filter_none)
    with True show ?thesis by simp
  next
    case False
    with Cons show ?thesis by simp
  qed
qed

section \<open>Subscribing\<close>

lemma subscribe_new:
  assumes "ObjectId questionId = Some qi"
    and "find_one (\<lambda>s. sub_user_id s = userId \<and> sub_question_id s = qi) (subscriptions w) = None"
  shows "subscribeToQuestion w now userId questionId =
    (w\<lparr>subscriptions := subscriptions w @
        [\<lparr>sub_user_id = userId, sub_question_id = qi, sub_created_at = now\<rparr>]\<rparr>, True)"
  using assms by (simp add: subscribeToQuestion_def)

lemma subscribe_old:
  assumes "ObjectId questionId = Some qi"
    and "find_one (\<lambda>s. sub_user_id s = userId \<and> sub_question_id s = qi) (subscriptions w) = Some s"
  shows "subscribeToQuestion w now userId questionId = (w, True)"
  using assms by (simp add: subscribeToQuestion_def)

lemma subscribed_after:
  assumes "ObjectId questionId = Some qi"
  shows "find_one (\<lambda>s. sub_user_id s = userId \<and> sub_question_id s = qi)
           (subscriptions (fst (subscribeToQuestion w now userId questionId))) \<noteq> None"
proof (cases "find_one (\<lambda>s. sub_user_id s = userId \<and> sub_question_id s = qi) (subscriptions w)")
  case None
  with assms show ?thesis by (simp add: subscribe_new find_one_append) (simp add: find_one_def)
next
  case (Some s)
  with assms show ?thesis by (simp add: subscribe_old)
qed

lemma subscribe_unique:
  assumes "unique_subscriptions w"
  shows "unique_subscriptions (fst (subscribeToQuestion w now userId questionId))"
proof (cases "ObjectId questionId")
  case None
  with assms show ?thesis by (simp add: subscribeToQuestion_def)
next
  case (Some qi)
  show ?thesis
  proof (cases "find_one (\<lambda>s. sub_user_id s = userId \<and> sub_question_id s = qi) (subscriptions w)")
    case None
    then have "\<forall>s \<in> set (subscriptions w). (sub_user_id s, sub_question_id s) \<noteq> (userId, qi)"
      by (auto simp: find_one_None)
    with assms Some None show ?thesis
      by (auto simp: subscribe_new unique_subscriptions_def)
  next
    case (Some s)
    with assms \<open>ObjectId questionId = Some qi\<close> show ?thesis by (simp add: subscribe_old)
  qed
qed

text \<open>
  C9: for a question id and a user, in a store that respects the unique index on
  subscriptions, subscribing twice succeeds both times; the second call returns the
  state the first one left, so it changes no field of the record (its creation time
  included), and exactly one subscription record of the pair exists afterwards.
\<close>

theorem subscribe_idempotent:
  assumes "ObjectId questionId = Some qi" and "unique_subscriptions w"
  shows "snd (subscribeToQuestion w t1 userId questionId)
    \<and> subscribeToQuestion (fst (subscribeToQuestion w t1 userId questionId)) t2 userId questionId
        = (fst (subscribeToQuestion w t1 userId questionId), True)
    \<and> length (subscription_records
        (fst (subscribeToQuestion (fst (subscribeToQuestion w t1 userId questionId)) t2 userId questionId))
        userId qi) = 1"
proof -
  let ?P = "\<lambda>s. sub_user_id s = userId \<and> sub_question_id s = qi"
  let ?w1 = "fst (subscribeToQuestion w t1 userId questionId)"
  have first: "snd (subscribeToQuestion w t1 userId questionId)"
    using assms(1) by (simp add: subscribeToQuestion_def split: option.split)
  obtain s where s: "find_one ?P (subscriptions ?w1) = Some s"
    using subscribed_after [OF assms(1), of userId w t1] by auto
  then have second: "subscribeToQuestion ?w1 t2 userId questionId = (?w1, True)"
    using assms(1) by (simp add: subscribe_old)
  have "unique_subscriptions ?w1" using assms(2) by (rule subscribe_unique)
  then have "length (filter (\<lambda>s. (sub_user_id s, sub_question_id s) = (userId, qi))
      (subscriptions ?w1)) \<le> 1"
    unfolding unique_subscriptions_def by (rule filter_key_at_most_one)
  then have le: "length (subscription_records ?w1 userId qi) \<le> 1"
    by (simp add: subscription_records_def)
  from s have "s \<in> set (subscription_records ?w1 userId qi)"
    using find_one_Some [of ?P "subscriptions ?w1" s] by (simp add: subscription_records_def)
  then have "subscription_records ?w1 userId qi \<noteq> []" by auto
  with le have "length (subscription_records ?w1 userId qi) = 1"
    by (cases "subscription_records ?w1 userId qi") auto
  with first second show ?thesis by simp
qed

text \<open>C9, an instance: Carol subscribes twice to Alice's question.\<close>

theorem subscribe_idempotent_witness:
  "snd (subscribeToQuestion (run ops_answered) 10 300 question0)
    \<and> subscribeToQuestion (fst (subscribeToQuestion (run ops_answered) 10 300 question0)) 11 300 question0
        = (fst (subscribeToQuestion (run ops_answered) 10 300 question0), True)
    \<and> length (subscription_records
        (fst (subscribeToQuestion (fst (subscribeToQuestion (run ops_answered) 10 300 question0)) 11 300 question0))
        300 0) = 1"
proof -
  have h1: "ObjectId question0 = Some 0" by code_simp
  have h2: "unique_subscriptions (run ops_answered)" by code_simp
  show ?thesis by (rule subscribe_idempotent [OF h1 h2])
qed

section \<open>Voting\<close>

text \<open>
  C4: when the voter is the author of the answer, \<open>voteAnswer\<close> refuses whatever the
  vote type and returns the state as it was, so neither the vote count nor any vote
  record changes, and the handler answers that one cannot vote on one's own answer.
\<close>

theorem self_vote_rejected:
  assumes "map_option a_user_id (getAnswerWithVotes w answerId) = Some userId"
  shows "voteAnswer w now userId answerId voteType = (w, False)
    \<and> vote_action voteType ack w now userId answerId =
        (w, [AnswerCbQuery ''Cannot vote on your own answer''])"
proof -
  from assms obtain a where a: "getAnswerWithVotes w answerId = Some a" "a_user_id a = userId"
    by auto
  then have v: "voteAnswer w now userId answerId voteType = (w, False)"
    by (simp add: voteAnswer_def)
  then show ?thesis by (simp add: vote_action_def)
qed

text \<open>C4, an instance: Bob votes down his own answer.\<close>

theorem self_vote_rejected_witness:
  "voteAnswer (run ops_answered) 9 200 answer2 Down = (run ops_answered, False)
    \<and> vote_action Down ''Downvoted!'' (run ops_answered) 9 200 answer2 =
        (run ops_answered, [AnswerCbQuery ''Cannot vote on your own answer''])"
proof -
  have "map_option a_user_id (getAnswerWithVotes (run ops_answered) answer2) = Some 200"
    by code_simp
  then show ?thesis by (rule self_vote_rejected)
qed

lemma voteAnswer_cast:
  assumes "ObjectId answerId = Some ai"
    and "getAnswerWithVotes w answerId = Some a" and "a_user_id a \<noteq> userId"
  shows "voteAnswer w now userId answerId voteType =
    (w\<lparr>votes := delete_one (\<lambda>v. v_user_id v = userId \<and> v_answer_id v = ai) (votes w) @
          [\<lparr>v_user_id = userId, v_answer_id = ai, v_vote_type = voteType, v_created_at = now\<rparr>],
       answers := update_one (\<lambda>a. a_id a = ai)
          (\<lambda>a. a\<lparr>a_votes := a_votes a + voteValue voteType\<rparr>) (answers w)\<rparr>, True)"
  using assms by (simp add: voteAnswer_def)

lemma voteAnswer_answer:
  assumes "ObjectId answerId = Some ai"
    and "getAnswerWithVotes w answerId = Some a" and "a_user_id a \<noteq> userId"
  shows "getAnswerWithVotes (fst (voteAnswer w now userId answerId voteType)) answerId =
    Some (a\<lparr>a_votes := a_votes a + voteValue voteType\<rparr>)"
proof -
  from assms(1,2) have "find_one (\<lambda>a. a_id a = ai) (answers w) = Some a"
    by (simp add: getAnswerWithVotes_def)
  then have "find_one (\<lambda>a. a_id a = ai) (update_one (\<lambda>a. a_id a = ai)
      (\<lambda>a. a\<lparr>a_votes := a_votes a + voteValue voteType\<rparr>) (answers w)) =
      Some (a\<lparr>a_votes := a_votes a + voteValue voteType\<rparr>)"
    by (simp add: find_one_update_one)
  with assms show ?thesis by (simp add: voteAnswer_cast getAnswerWithVotes_def)
qed

lemma voteAnswer_records:
  assumes "ObjectId answerId = Some ai"
    and "getAnswerWithVotes w answerId = Some a" and "a_user_id a \<noteq> userId"
    and "unique_votes w"
  shows "vote_records (fst (voteAnswer w now userId answerId voteType)) userId ai =
    [\<lparr>v_user_id = userId, v_answer_id = ai, v_vote_type = voteType, v_created_at = now\<rparr>]"
proof -
  have "\<forall>v \<in> set (delete_one (\<lambda>v. (v_user_id v, v_answer_id v) = (userId, ai)) (votes w)).
      (v_user_id v, v_answer_id v) \<noteq> (userId, ai)"
    using assms(4) unfolding unique_votes_def by (rule delete_one_key_gone)
  then have "filter (\<lambda>v. v_user_id v = userId \<and> v_answer_id v = ai)
      (delete_one (\<lambda>v. v_user_id v = userId \<and> v_answer_id v = ai) (votes w)) = []"
    by (intro filter_none) simp
  with assms(1-3) show ?thesis by (simp add: voteAnswer_cast vote_records_def)
qed

lemma voteAnswer_unique:
  assumes "unique_votes w"
  shows "unique_votes (fst (voteAnswer w now userId answerId voteType))"
proof (cases "\<exists>ai a. ObjectId answerId = Some ai \<and> getAnswerWithVotes w answerId = Some a
    \<and> a_user_id a \<noteq> userId")
  case True
  then obtain ai a where h: "ObjectId answerId = Some ai" "getAnswerWithVotes w answerId = Some a"
    "a_user_id a \<noteq> userId" by auto
  let ?k = "\<lambda>v. (v_user_id v, v_answer_id v)"
  have d: "distinct (map ?k (delete_one (\<lambda>v. ?k v = (userId, ai)) (votes w)))"
    using assms unfolding unique_votes_def by (rule distinct_delete_one)
  have g: "\<forall>v \<in> set (delete_one (\<lambda>v. ?k v = (userId, ai)) (votes w)). ?k v \<noteq> (userId, ai)"
    using assms unfolding unique_votes_def by (rule delete_one_key_gone)
  from d g h show ?thesis
    by (auto simp: voteAnswer_cast unique_votes_def)
next
  case False
  with assms show ?thesis
    by (auto simp: voteAnswer_def split: option.splits)
qed

text \<open>
  C2, as the specification states it: an up vote followed by a down vote of the same user
  on the same answer moves the aggregate count by -2 at the second cast. This fails:
  after Carol votes up and then down on Bob's answer the count goes from 0 to 1 and then
  back to 0, a move of -1.
\<close>

theorem vote_switch_counterexample:
  "vote_count (run ops_answered) answer2 = 0
   \<and> vote_count (fst (voteAnswer (run ops_answered) 10 300 answer2 Up)) answer2 = 1
   \<and> vote_count (fst (voteAnswer (fst (voteAnswer (run ops_answered) 10 300 answer2 Up))
        11 300 answer2 Down)) answer2 = 0
   \<and> vote_count (fst (voteAnswer (fst (voteAnswer (run ops_answered) 10 300 answer2 Up))
        11 300 answer2 Down)) answer2
      \<noteq> vote_count (fst (voteAnswer (run ops_answered) 10 300 answer2 Up)) answer2 - 2"
  by code_simp

text \<open>
  C2, amended: for a user who is not the author of the answer, in a store that respects
  the unique index on votes, an up vote followed by a down vote both succeed and leave
  exactly one vote record of the pair, with sign down; the first cast adds 1 to the
  aggregate count and the second subtracts 1 from the value after the up vote, the old
  contribution staying in the count.
\<close>

theorem vote_switch:
  assumes "ObjectId answerId = Some ai"
    and "map_option a_user_id (getAnswerWithVotes w answerId) = Some author"
    and "author \<noteq> userId" and "unique_votes w"
  shows "snd (voteAnswer w t1 userId answerId Up)
    \<and> snd (voteAnswer (fst (voteAnswer w t1 userId answerId Up)) t2 userId answerId Down)
    \<and> vote_records (fst (voteAnswer (fst (voteAnswer w t1 userId answerId Up)) t2 userId answerId Down))
        userId ai
       = [\<lparr>v_user_id = userId, v_answer_id = ai, v_vote_type = Down, v_created_at = t2\<rparr>]
    \<and> vote_count (fst (voteAnswer w t1 userId answerId Up)) answerId = vote_count w answerId + 1
    \<and> vote_count (fst (voteAnswer (fst (voteAnswer w t1 userId answerId Up)) t2 userId answerId Down))
        answerId
       = vote_count (fst (voteAnswer w t1 userId answerId Up)) answerId - 1"
proof -
  let ?w1 = "fst (voteAnswer w t1 userId answerId Up)"
  let ?w2 = "fst (voteAnswer ?w1 t2 userId answerId Down)"
  from assms(2,3) obtain a where a: "getAnswerWithVotes w answerId = Some a" "a_user_id a \<noteq> userId"
    by auto
  have a1: "getAnswerWithVotes ?w1 answerId = Some (a\<lparr>a_votes := a_votes a + voteValue Up\<rparr>)"
    using assms(1) a by (rule voteAnswer_answer)
  have a1': "a_user_id (a\<lparr>a_votes := a_votes a + voteValue Up\<rparr>) \<noteq> userId"
    using a(2) by simp
  have a2: "getAnswerWithVotes ?w2 answerId =
      Some (a\<lparr>a_votes := a_votes a + voteValue Up, a_votes := a_votes a + voteValue Up + voteValue Down\<rparr>)"
    using voteAnswer_answer [OF assms(1) a1 a1', of t2 Down] by simp
  have u1: "unique_votes ?w1" using assms(4) by (rule voteAnswer_unique)
  have r: "vote_records ?w2 userId ai =
      [\<lparr>v_user_id = userId, v_answer_id = ai, v_vote_type = Down, v_created_at = t2\<rparr>]"
    using assms(1) a1 a1' u1 by (rule voteAnswer_records)
  have s1: "snd (voteAnswer w t1 userId answerId Up)"
    using assms(1) a by (simp add: voteAnswer_cast)
  have s2: "snd (voteAnswer ?w1 t2 userId answerId Down)"
    using assms(1) a1 a1' by (simp add: voteAnswer_cast)
  from a a1 a2 r s1 s2 show ?thesis by (simp add: vote_count_def voteValue_def)
qed

text \<open>C2, an instance: Carol votes up and then down on Bob's answer.\<close>

theorem vote_switch_witness:
  "snd (voteAnswer (run ops_answered) 10 300 answer2 Up)
    \<and> snd (voteAnswer (fst (voteAnswer (run ops_answered) 10 300 answer2 Up)) 11 300 answer2 Down)
    \<and> vote_records (fst (voteAnswer (fst (voteAnswer (run ops_answered) 10 300 answer2 Up)) 11 300 answer2 Down))
        300 2
       = [\<lparr>v_user_id = 300, v_answer_id = 2, v_vote_type = Down, v_created_at = 11\<rparr>]
    \<and> vote_count (fst (voteAnswer (run ops_answered) 10 300 answer2 Up)) answer2
       = vote_count (run ops_answered) answer2 + 1
    \<and> vote_count (fst (voteAnswer (fst (voteAnswer (run ops_answered) 10 300 answer2 Up)) 11 300 answer2 Down))
        answer2
       = vote_count (fst (voteAnswer (run ops_answered) 10 300 answer2 Up)) answer2 - 1"
proof -
  have h1: "ObjectId answer2 = Some 2" by code_simp
  have h2: "map_option a_user_id (getAnswerWithVotes (run ops_answered) answer2) = Some 200"
    by code_simp
  have h3: "(200::int) \<noteq> 300" by simp
  have h4: "unique_votes (run ops_answered)" by code_simp
  show ?thesis by (rule vote_switch [OF h1 h2 h3 h4])
qed

text \<open>
  C3, as the specification states it: clearing an up vote brings the aggregate count
  down by 1, back to its value before the vote. This fails: after Carol's up vote on
  Bob's answer the count is 1, and it is still 1 after she clears the vote, while her
  vote record is gone.
\<close>

theorem vote_clear_counterexample:
  "vote_count (run ops_answered) answer2 = 0
   \<and> vote_count (fst (voteAnswer (run ops_answered) 10 300 answer2 Up)) answer2 = 1
   \<and> vote_count (fst (action_VOTE_NONE (fst (voteAnswer (run ops_answered) 10 300 answer2 Up))
        300 answer2)) answer2 = 1
   \<and> vote_records (fst (action_VOTE_NONE (fst (voteAnswer (run ops_answered) 10 300 answer2 Up))
        300 answer2)) 300 2 = []"
  by code_simp

lemma action_VOTE_NONE_state:
  assumes "ObjectId answerId = Some ai"
  shows "action_VOTE_NONE w userId answerId =
    (w\<lparr>votes := delete_one (\<lambda>v. v_user_id v = userId \<and> v_answer_id v = ai) (votes w)\<rparr>,
     [AnswerCbQuery (''Vote removed! Current votes: '' @ number_toString (vote_count w answerId))])"
  using assms by (simp add: action_VOTE_NONE_def vote_count_def getAnswerWithVotes_def)

text \<open>
  C3, amended: for a user and an answer id, in a store that respects the unique index on
  votes, clearing the vote deletes the vote record of the pair and changes nothing else:
  the answers, and with them the aggregate vote count, stay as they were (the
  contribution of the cleared vote remains in the count), and no notification is stored
  or sent; the handler acknowledges with the unchanged count. Clearing when the pair has
  no vote record leaves the whole state unchanged and is acknowledged the same way.
\<close>

theorem vote_clear:
  assumes "ObjectId answerId = Some ai" and "unique_votes w"
  shows "vote_records (fst (action_VOTE_NONE w userId answerId)) userId ai = []
    \<and> answers (fst (action_VOTE_NONE w userId answerId)) = answers w
    \<and> vote_count (fst (action_VOTE_NONE w userId answerId)) answerId = vote_count w answerId
    \<and> notifications (fst (action_VOTE_NONE w userId answerId)) = notifications w
    \<and> sent (fst (action_VOTE_NONE w userId answerId)) = sent w
    \<and> snd (action_VOTE_NONE w userId answerId) =
        [AnswerCbQuery (''Vote removed! Current votes: '' @ number_toString (vote_count w answerId))]
    \<and> (vote_records w userId ai = [] \<longrightarrow> fst (action_VOTE_NONE w userId answerId) = w)"
proof -
  let ?P = "\<lambda>v. v_user_id v = userId \<and> v_answer_id v = ai"
  have "\<forall>v \<in> set (delete_one (\<lambda>v. (v_user_id v, v_answer_id v) = (userId, ai)) (votes w)).
      (v_user_id v, v_answer_id v) \<noteq> (userId, ai)"
    using assms(2) unfolding unique_votes_def by (rule delete_one_key_gone)
  then have gone: "filter ?P (delete_one ?P (votes w)) = []"
    by (intro filter_none) simp
  have same: "fst (action_VOTE_NONE w userId answerId) = w" if "vote_records w userId ai = []"
  proof -
    from that have "\<forall>v \<in> set (votes w). \<not> ?P v"
      by (simp add: vote_records_def filter_empty_conv)
    then have "delete_one ?P (votes w) = votes w" by (rule delete_one_none)
    with assms(1) show ?thesis by (simp add: action_VOTE_NONE_state)
  qed
  from assms(1) gone same show ?thesis
    by (simp add: action_VOTE_NONE_state vote_records_def vote_count_def getAnswerWithVotes_def)
qed

text \<open>
  C3, an instance: Carol clears her up vote on Bob's answer, which keeps its count of 1.
\<close>

theorem vote_clear_witness:
  "vote_records (fst (action_VOTE_NONE (fst (voteAnswer (run ops_answered) 10 300 answer2 Up))
      300 answer2)) 300 2 = []
   \<and> vote_count (fst (action_VOTE_NONE (fst (voteAnswer (run ops_answered) 10 300 answer2 Up))
      300 answer2)) answer2 = 1
   \<and> snd (action_VOTE_NONE (fst (voteAnswer (run ops_answered) 10 300 answer2 Up)) 300 answer2) =
        [AnswerCbQuery ''Vote removed! Current votes: 1'']"
proof -
  have h1: "ObjectId answer2 = Some 2" by code_simp
  have h2: "unique_votes (fst (voteAnswer (run ops_answered) 10 300 answer2 Up))" by code_simp
  have c: "vote_count (fst (voteAnswer (run ops_answered) 10 300 answer2 Up)) answer2 = 1"
    by code_simp
  have n: "number_toString 1 = ''1''" by code_simp
  from vote_clear [OF h1 h2, of 300] c n show ?thesis by simp
qed

section \<open>Approval and rejection\<close>

lemma apply_inc_award:
  "f = F_questions_asked \<or> f = F_answers_given \<Longrightarrow>
   apply_inc ([f \<mapsto> 1](F_points \<mapsto> 5)) = award f"
  by (auto simp: apply_inc_def award_def inc_amount_def fun_eq_iff)

lemma updateUserStats_award:
  "f = F_questions_asked \<or> f = F_answers_given \<Longrightarrow>
   updateUserStats w userId f 1 =
     w\<lparr>users := update_one (\<lambda>u. u_user_id u = userId) (award f) (users w)\<rparr>"
  using apply_inc_award [of f] by (auto simp: updateUserStats_def)

lemma getQuestion_Some:
  "getQuestion w questionId = Some q \<longleftrightarrow>
   (\<exists>qi. ObjectId questionId = Some qi \<and> find_one (\<lambda>q. q_id q = qi) (questions w) = Some q)"
  by (auto simp: getQuestion_def split: option.splits)

lemma approveQuestion_found:
  assumes "ObjectId questionId = Some qi"
    and "find_one (\<lambda>q. q_id q = qi) (questions w) = Some q"
  shows "approveQuestion w questionId channelMessageId =
    (w\<lparr>questions := update_one (\<lambda>q. q_id q = qi)
          (\<lambda>q. q\<lparr>approved := True, q_channel_message_id := Some channelMessageId\<rparr>) (questions w),
       users := update_one (\<lambda>u. u_user_id u = q_user_id q) (award F_questions_asked) (users w)\<rparr>,
     Some (q\<lparr>approved := True, q_channel_message_id := Some channelMessageId\<rparr>))"
proof -
  let ?f = "\<lambda>q. q\<lparr>approved := True, q_channel_message_id := Some channelMessageId\<rparr>"
  have "find_one (\<lambda>q. q_id q = qi) (update_one (\<lambda>q. q_id q = qi) ?f (questions w)) = Some (?f q)"
    using assms(2) by (simp add: find_one_update_one)
  with assms(1) show ?thesis
    by (simp add: approveQuestion_def getQuestion_def updateUserStats_award)
qed




text \<open>
  C8, as the specification states it: rejecting a question that is not pending fails with
  NotFound, deletes nothing and notifies nobody. This fails: Alice's question is
  approved, and the operator's rejection of it is acknowledged as a success, deletes the
  question and sends Alice the rejection notice.
\<close>

theorem reject_approved_counterexample:
  "map_option approved (getQuestion (run ops_approved) question0) = Some True
   \<and> length (questions (run ops_approved)) = 1
   \<and> snd (action_REJECT 1 (run ops_approved) 1 question0) =
        [EditMessageText ''Question Rejected!'', AnswerCbQuery []]
   \<and> questions (fst (action_REJECT 1 (run ops_approved) 1 question0)) = []
   \<and> sent (fst (action_REJECT 1 (run ops_approved) 1 question0)) =
        sent (run ops_approved) @ [(100, Rejection_notice)]"
  by code_simp

lemma delete_one_shorter:
  "find_one P xs = Some x \<Longrightarrow> Suc (length (delete_one P xs)) = length xs"
  by (induction xs) (auto simp: find_one_def split: if_splits)

text \<open>
  C8, amended: rejecting a question that does not exist (or whose id is malformed)
  fails with the answer that the question was not found, and leaves the state as it was:
  no question is deleted and nobody is notified. Every question in the store, pending or
  approved, can be rejected by the operator: the rejection deletes it and, unless its
  author has blocked the bot, sends the author the rejection notice and is acknowledged
  as a success.
\<close>

theorem reject_question:
  "(getQuestion w questionId = None \<longrightarrow>
      action_REJECT ADMIN_ID w ADMIN_ID questionId = (w, [AnswerCbQuery ''Question not found'']))
   \<and> (\<forall>q qi. getQuestion w questionId = Some q \<longrightarrow> ObjectId questionId = Some qi \<longrightarrow>
        questions (fst (action_REJECT ADMIN_ID w ADMIN_ID questionId)) =
          delete_one (\<lambda>q. q_id q = qi) (questions w)
        \<and> Suc (length (questions (fst (action_REJECT ADMIN_ID w ADMIN_ID questionId)))) =
            length (questions w)
        \<and> (q_user_id q \<notin> set (blocked w) \<longrightarrow>
            sent (fst (action_REJECT ADMIN_ID w ADMIN_ID questionId)) =
              sent w @ [(q_user_id q, Rejection_notice)]
            \<and> snd (action_REJECT ADMIN_ID w ADMIN_ID questionId) =
              [EditMessageText ''Question Rejected!'', AnswerCbQuery []]))"
proof (intro conjI allI impI)
  assume "getQuestion w questionId = None"
  then show "action_REJECT ADMIN_ID w ADMIN_ID questionId =
      (w, [AnswerCbQuery ''Question not found''])"
    by (simp add: action_REJECT_def)
next
  fix q qi
  assume q: "getQuestion w questionId = Some q" and qi: "ObjectId questionId = Some qi"
  then show del: "questions (fst (action_REJECT ADMIN_ID w ADMIN_ID questionId)) =
      delete_one (\<lambda>q. q_id q = qi) (questions w)"
    by (simp add: action_REJECT_def sendMessage_def Let_def)
  from q qi have "find_one (\<lambda>q. q_id q = qi) (questions w) = Some q"
    by (simp add: getQuestion_def)
  then have "Suc (length (delete_one (\<lambda>q. q_id q = qi) (questions w))) = length (questions w)"
    by (rule delete_one_shorter)
  with del show "Suc (length (questions (fst (action_REJECT ADMIN_ID w ADMIN_ID questionId)))) =
      length (questions w)"
    by simp
  assume "q_user_id q \<notin> set (blocked w)"
  with q qi show "sent (fst (action_REJECT ADMIN_ID w ADMIN_ID questionId)) =
      sent w @ [(q_user_id q, Rejection_notice)]"
    and "snd (action_REJECT ADMIN_ID w ADMIN_ID questionId) =
      [EditMessageText ''Question Rejected!'', AnswerCbQuery []]"
    by (simp_all add: action_REJECT_def sendMessage_def Let_def)
qed

text \<open>
  C8, an instance: an id that names no question is not found, and Alice's approved
  question is deleted by its rejection.
\<close>

theorem reject_question_witness:
  "action_REJECT 1 (run ops_approved) 1 answer2 =
      (run ops_approved, [AnswerCbQuery ''Question not found''])
   \<and> questions (fst (action_REJECT 1 (run ops_approved) 1 question0)) =
        delete_one (\<lambda>q. q_id q = 0) (questions (run ops_approved))
   \<and> Suc (length (questions (fst (action_REJECT 1 (run ops_approved) 1 question0)))) =
        length (questions (run ops_approved))
   \<and> snd (action_REJECT 1 (run ops_approved) 1 question0) =
        [EditMessageText ''Question Rejected!'', AnswerCbQuery []]"
proof -
  have none: "getQuestion (run ops_approved) answer2 = None" by code_simp
  have some: "getQuestion (run ops_approved) question0 =
      Some (the (getQuestion (run ops_approved) question0))"
    by code_simp
  have qi: "ObjectId question0 = Some 0" by code_simp
  have free: "q_user_id (the (getQuestion (run ops_approved) question0)) \<notin>
      set (blocked (run ops_approved))"
    by code_simp
  from reject_question [of "run ops_approved" answer2 1] none
  have a: "action_REJECT 1 (run ops_approved) 1 answer2 =
      (run ops_approved, [AnswerCbQuery ''Question not found''])"
    by blast
  from reject_question [of "run ops_approved" question0 1] some qi free
  have b: "questions (fst (action_REJECT 1 (run ops_approved) 1 question0)) =
        delete_one (\<lambda>q. q_id q = 0) (questions (run ops_approved))
   \<and> Suc (length (questions (fst (action_REJECT 1 (run ops_approved) 1 question0)))) =
        length (questions (run ops_approved))
   \<and> snd (action_REJECT 1 (run ops_approved) 1 question0) =
        [EditMessageText ''Question Rejected!'', AnswerCbQuery []]"
    by blast
  from a b show ?thesis by blast
qed

section \<open>Notification of a new answer\<close>

lemma createNotification_notifications:
  "notifications (fst (createNotification w now userId p)) =
     notifications w @ [\<lparr>n_id = next_oid w, n_user_id = userId, n_payload = p, n_read = False,
       n_created_at = now\<rparr>]"
  by (simp add: createNotification_def sendRealTimeNotification_def sendMessage_def Let_def)

lemma createNotification_others:
  "subscriptions (fst (createNotification w now userId p)) = subscriptions w"
  "sessions (fst (createNotification w now userId p)) = sessions w"
  "questions (fst (createNotification w now userId p)) = questions w"
  "users (fst (createNotification w now userId p)) = users w"
  "votes (fst (createNotification w now userId p)) = votes w"
  "answers (fst (createNotification w now userId p)) = answers w"
  by (simp_all add: createNotification_def sendRealTimeNotification_def sendMessage_def Let_def)

lemma new_answer_count_createNotification:
  "type_of_payload p = T_new_answer \<Longrightarrow>
   new_answer_count (fst (createNotification w now userId p)) r =
     new_answer_count w r + (if r = userId then 1 else 0)"
  by (simp add: new_answer_count_def createNotification_notifications)

lemma notify_subscribers_found:
  assumes "type_of_payload p = T_new_answer"
  shows "\<exists>w'. notify_subscribers w now (Some q) userId p subs = Inr w'
    \<and> subscriptions w' = subscriptions w \<and> sessions w' = sessions w
    \<and> (\<forall>r. new_answer_count w' r =
          new_answer_count w r +
          length (filter (\<lambda>s. s = r \<and> s \<noteq> userId \<and> s \<noteq> q_user_id q) subs))"
proof (induction subs arbitrary: w)
  case Nil
  show ?case by simp
next
  case (Cons s subs)
  show ?case
  proof (cases "s \<noteq> userId \<and> s \<noteq> q_user_id q")
    case True
    let ?w1 = "fst (createNotification w now s p)"
    from Cons [of ?w1] obtain w' where w': "notify_subscribers ?w1 now (Some q) userId p subs = Inr w'"
      "subscriptions w' = subscriptions ?w1" "sessions w' = sessions ?w1"
      "\<forall>r. new_answer_count w' r = new_answer_count ?w1 r +
          length (filter (\<lambda>s. s = r \<and> s \<noteq> userId \<and> s \<noteq> q_user_id q) subs)"
      by blast
    from True w'(1) have "notify_subscribers w now (Some q) userId p (s # subs) = Inr w'"
      by simp
    moreover from w'(2,3) have "subscriptions w' = subscriptions w \<and> sessions w' = sessions w"
      by (simp add: createNotification_others)
    moreover from True w'(4) assms
    have "\<forall>r. new_answer_count w' r = new_answer_count w r +
          length (filter (\<lambda>s. s = r \<and> s \<noteq> userId \<and> s \<noteq> q_user_id q) (s # subs))"
      by (auto simp: new_answer_count_createNotification)
    ultimately show ?thesis by blast
  next
    case False
    from Cons [of w] obtain w' where w': "notify_subscribers w now (Some q) userId p subs = Inr w'"
      "subscriptions w' = subscriptions w" "sessions w' = sessions w"
      "\<forall>r. new_answer_count w' r = new_answer_count w r +
          length (filter (\<lambda>s. s = r \<and> s \<noteq> userId \<and> s \<noteq> q_user_id q) subs)"
      by blast
    from False w'(1) have "notify_subscribers w now (Some q) userId p (s # subs) = Inr w'"
      by auto
    moreover from False w'(4)
    have "\<forall>r. new_answer_count w' r = new_answer_count w r +
          length (filter (\<lambda>s. s = r \<and> s \<noteq> userId \<and> s \<noteq> q_user_id q) (s # subs))"
      by auto
    ultimately show ?thesis using w'(2,3) by blast
  qed
qed

lemma distinct_subscribers:
  "distinct (map (\<lambda>s. (sub_user_id s, sub_question_id s)) subs) \<Longrightarrow>
   distinct (map sub_user_id (filter (\<lambda>s. sub_question_id s = qi) subs))"
proof (induction subs)
  case Nil
  then show ?case by simp
next
  case (Cons s subs)
  then show ?case by (auto simp: image_iff)
qed

lemma getSubscribers_distinct:
  "unique_subscriptions w \<Longrightarrow> distinct (getSubscribers w questionId)"
  by (auto simp: getSubscribers_def unique_subscriptions_def distinct_subscribers
      split: option.split)

lemma count_in_distinct:
  "distinct xs \<Longrightarrow> length (filter (\<lambda>s. s = r \<and> P s) xs) = (if r \<in> set xs \<and> P r then 1 else 0)"
proof (induction xs)
  case Nil
  then show ?case by simp
next
  case (Cons x xs)
  then show ?case by auto
qed

lemma createAnswer_made:
  assumes "ObjectId (ad_questionId d) = Some qi"
  shows "snd (createAnswer w now d) = Some (next_oid w)"
    and "subscriptions (fst (createAnswer w now d)) = subscriptions w"
    and "notifications (fst (createAnswer w now d)) = notifications w"
    and "sessions (fst (createAnswer w now d)) = sessions w"
    and "questions (fst (createAnswer w now d)) =
      update_one (\<lambda>q. q_id q = qi) (\<lambda>q. q\<lparr>answer_count := answer_count q + 1\<rparr>) (questions w)"
  using assms by (simp_all add: createAnswer_def updateUserStats_def Let_def)

lemma subscribe_others:
  "notifications (fst (subscribeToQuestion w now userId questionId)) = notifications w"
  "sessions (fst (subscribeToQuestion w now userId questionId)) = sessions w"
  "questions (fst (subscribeToQuestion w now userId questionId)) = questions w"
  by (simp_all add: subscribeToQuestion_def split: option.split)

lemma subscribe_subscribers:
  "r \<noteq> userId \<Longrightarrow>
   r \<in> set (getSubscribers (fst (subscribeToQuestion w now userId questionId)) q') \<longleftrightarrow>
   r \<in> set (getSubscribers w q')"
  by (auto simp: subscribeToQuestion_def getSubscribers_def split: option.splits)

lemma new_answer_count_cong:
  "notifications w = notifications w' \<Longrightarrow> new_answer_count w r = new_answer_count w' r"
  by (simp add: new_answer_count_def)

lemma getSubscribers_cong:
  "subscriptions w = subscriptions w' \<Longrightarrow> getSubscribers w questionId = getSubscribers w' questionId"
  by (simp add: getSubscribers_def split: option.split)

lemma isSubscribed_cong:
  "subscriptions w = subscriptions w' \<Longrightarrow> isSubscribed w userId questionId = isSubscribed w' userId questionId"
  by (simp add: isSubscribed_def split: option.split)

lemma deleteSession_others:
  "subscriptions (deleteSession w userId) = subscriptions w"
  "notifications (deleteSession w userId) = notifications w"
  by (simp_all add: deleteSession_def)

text \<open>
  While the question is still in the store, the notifications go out as the
  specification says. A user in step \<open>awaiting_answer\<close> for an existing question sends a
  text that the filter allows, in a store that respects the unique index on
  subscriptions. Then the answer is posted; the answerer is subscribed to the question
  afterwards; and the number of \<open>new_answer\<close> notifications stored for a user grows by
  exactly one when the user is not the answerer and is the author of the question or one
  of its subscribers, and does not change otherwise.
\<close>

lemma fan_out_question_present:
  assumes "getSession w userId = Some session" and "step session = Awaiting_answer"
    and "s_questionId session = Some questionId" and "allowed (contentFilter userMessage)"
    and "getQuestion w questionId = Some q" and "unique_subscriptions w"
  shows "snd (on_text ADMIN_ID w now userId from_name userMessage) = [Reply ''Answer Posted!'']
    \<and> isSubscribed (fst (on_text ADMIN_ID w now userId from_name userMessage)) userId questionId
    \<and> (\<forall>r. new_answer_count (fst (on_text ADMIN_ID w now userId from_name userMessage)) r =
          new_answer_count w r +
          (if r \<noteq> userId \<and> (r = q_user_id q \<or> r \<in> set (getSubscribers w questionId))
           then 1 else 0))"
proof -
  from assms(5) obtain qi where qi: "ObjectId questionId = Some qi"
    and q: "find_one (\<lambda>q. q_id q = qi) (questions w) = Some q"
    by (auto simp: getQuestion_Some)
  let ?d = "\<lparr>ad_questionId = questionId, ad_userId = userId, ad_username = from_name,
             ad_answer = userMessage, ad_channelMessageId = s_channelMessageId session\<rparr>"
  let ?wa = "fst (createAnswer w now ?d)"
  let ?w1 = "fst (subscribeToQuestion ?wa now userId questionId)"
  let ?q' = "q\<lparr>answer_count := answer_count q + 1\<rparr>"
  let ?p = "New_answer questionId userMessage userId"
  let ?w2 = "if q_user_id q \<noteq> userId then fst (createNotification ?w1 now (q_user_id q) ?p) else ?w1"
  let ?subs = "getSubscribers ?w2 questionId"
  have dq: "ObjectId (ad_questionId ?d) = Some qi" using qi by simp
  note ca = createAnswer_made [OF dq, of w now]
  have "questions ?w1 = update_one (\<lambda>q. q_id q = qi)
      (\<lambda>q. q\<lparr>answer_count := answer_count q + 1\<rparr>) (questions w)"
    using ca(5) by (simp add: subscribe_others)
  then have q1: "getQuestion ?w1 questionId = Some ?q'"
    using qi q by (simp add: getQuestion_def find_one_update_one)
  have n1: "notifications ?w1 = notifications w"
    using ca(3) by (simp add: subscribe_others)
  have s2: "subscriptions ?w2 = subscriptions ?w1"
    by (simp add: createNotification_others)
  have c2: "new_answer_count ?w2 r =
      new_answer_count w r + (if q_user_id q \<noteq> userId \<and> r = q_user_id q then 1 else 0)" for r
    by (simp add: new_answer_count_createNotification new_answer_count_cong [OF n1])
  have tp: "type_of_payload ?p = T_new_answer" by simp
  from notify_subscribers_found [OF tp, of ?w2 now ?q' userId ?subs]
  obtain w3 where w3: "notify_subscribers ?w2 now (Some ?q') userId ?p ?subs = Inr w3"
    and s3: "subscriptions w3 = subscriptions ?w2"
    and c3: "\<forall>r. new_answer_count w3 r = new_answer_count ?w2 r +
          length (filter (\<lambda>s. s = r \<and> s \<noteq> userId \<and> s \<noteq> q_user_id ?q') ?subs)"
    by blast
  have res: "on_text ADMIN_ID w now userId from_name userMessage =
      (deleteSession w3 userId, [Reply ''Answer Posted!''])"
    using assms(1-4) ca(1) q1 w3
    by (cases "q_user_id q = userId") (simp_all add: on_text_def awaiting_answer_def Let_def)
  have u1: "unique_subscriptions ?w1"
    using assms(6) ca(2) by (intro subscribe_unique) (simp add: unique_subscriptions_def)
  have subs_eq: "?subs = getSubscribers ?w1 questionId"
    using s2 by (rule getSubscribers_cong)
  have d: "distinct ?subs" using u1 subs_eq by (simp add: getSubscribers_distinct)
  have mem: "r \<in> set ?subs \<longleftrightarrow> r \<in> set (getSubscribers w questionId)" if "r \<noteq> userId" for r
  proof -
    have "r \<in> set (getSubscribers ?w1 questionId) \<longleftrightarrow> r \<in> set (getSubscribers ?wa questionId)"
      using that by (rule subscribe_subscribers)
    moreover have "getSubscribers ?wa questionId = getSubscribers w questionId"
      using ca(2) by (rule getSubscribers_cong)
    ultimately show ?thesis using subs_eq by simp
  qed
  have sub: "isSubscribed (deleteSession w3 userId) userId questionId"
  proof -
    have "subscriptions (deleteSession w3 userId) = subscriptions ?w1"
      using s3 s2 by (simp add: deleteSession_others)
    then have "isSubscribed (deleteSession w3 userId) userId questionId =
        isSubscribed ?w1 userId questionId"
      by (rule isSubscribed_cong)
    then show ?thesis
      using subscribed_after [OF qi, of userId ?wa now] qi by (simp add: isSubscribed_def)
  qed
  have cnt: "new_answer_count (deleteSession w3 userId) r =
      new_answer_count w r +
      (if r \<noteq> userId \<and> (r = q_user_id q \<or> r \<in> set (getSubscribers w questionId))
       then 1 else 0)" for r
  proof -
    have e1: "new_answer_count (deleteSession w3 userId) r = new_answer_count w3 r"
      by (rule new_answer_count_cong) (simp add: deleteSession_others)
    have e2: "new_answer_count w3 r = new_answer_count ?w2 r +
        length (filter (\<lambda>s. s = r \<and> s \<noteq> userId \<and> s \<noteq> q_user_id q) ?subs)"
      using c3 by simp
    have e3: "length (filter (\<lambda>s. s = r \<and> s \<noteq> userId \<and> s \<noteq> q_user_id q) ?subs) =
        (if r \<in> set ?subs \<and> (r \<noteq> userId \<and> r \<noteq> q_user_id q) then 1 else 0)"
      using d by (rule count_in_distinct)
    have total: "new_answer_count (deleteSession w3 userId) r =
        new_answer_count w r + (if q_user_id q \<noteq> userId \<and> r = q_user_id q then 1 else 0)
        + (if r \<in> set ?subs \<and> (r \<noteq> userId \<and> r \<noteq> q_user_id q) then 1 else 0)"
      by (simp only: e1 e2 e3 c2)
    show ?thesis
    proof (cases "r = userId")
      case True
      with total show ?thesis by auto
    next
      case False
      with total mem [OF False] show ?thesis by auto
    qed
  qed
  from res sub cnt show ?thesis by simp
qed

text \<open>
  An instance: Bob answers Alice's question, to which Alice and Carol are subscribed.
  Alice and Carol get one notification each, Bob and the operator none.
\<close>

lemma fan_out_question_present_example:
  "snd (on_text 1 (run ops_answering) 8 200 (js ''bob'') (js ''Yes, it is.'')) =
      [Reply ''Answer Posted!'']
   \<and> isSubscribed (fst (on_text 1 (run ops_answering) 8 200 (js ''bob'') (js ''Yes, it is.'')))
        200 question0
   \<and> new_answer_count (fst (on_text 1 (run ops_answering) 8 200 (js ''bob'') (js ''Yes, it is.''))) 100 = 1
   \<and> new_answer_count (fst (on_text 1 (run ops_answering) 8 200 (js ''bob'') (js ''Yes, it is.''))) 300 = 1
   \<and> new_answer_count (fst (on_text 1 (run ops_answering) 8 200 (js ''bob'') (js ''Yes, it is.''))) 200 = 0
   \<and> new_answer_count (fst (on_text 1 (run ops_answering) 8 200 (js ''bob'') (js ''Yes, it is.''))) 1 = 0"
proof -
  have h1: "getSession (run ops_answering) 200 = Some (the (getSession (run ops_answering) 200))"
    by code_simp
  have h2: "step (the (getSession (run ops_answering) 200)) = Awaiting_answer" by code_simp
  have h3: "s_questionId (the (getSession (run ops_answering) 200)) = Some question0"
    by code_simp
  have h4: "allowed (contentFilter (js ''Yes, it is.''))" by code_simp
  have h5: "getQuestion (run ops_answering) question0 =
      Some (the (getQuestion (run ops_answering) question0))"
    by code_simp
  have h6: "unique_subscriptions (run ops_answering)" by code_simp
  have before: "new_answer_count (run ops_answering) 100 = 0"
    "new_answer_count (run ops_answering) 300 = 0"
    "new_answer_count (run ops_answering) 200 = 0"
    "new_answer_count (run ops_answering) 1 = 0"
    by code_simp+
  have author: "q_user_id (the (getQuestion (run ops_answering) question0)) = 100" by code_simp
  have subs: "getSubscribers (run ops_answering) question0 = [300, 100]" by code_simp
  from fan_out_question_present [OF h1 h2 h3 h4 h5 h6, of 1 8 "js ''bob''"] before author subs
  show ?thesis by simp
qed

text \<open>
  C5: the answer of user B to question Q gives each subscriber of Q other than B and the
  author exactly one \<open>new_answer\<close> notification. The program breaks this when Q has been
  deleted while B's session for answering it is open. The operator's rejection of
  Alice's approved question leads to such a state, with Carol and Alice subscribed. Bob's
  answer is then saved, Bob gets his 5 points and is subscribed; the first notification
  (line 2118) is guarded by a test that the question exists, but the loop over the
  subscribers (line 2130) reads the author of the missing question without that test
  and throws at Carol. Bob is told that an error occurred, neither Carol nor Alice gets
  a notification, and Bob's session stays open.
\<close>

theorem answer_after_rejection:
  "fst (action_REJECT 1 (run ops_answering) 1 question0) = run ops_question_gone
   \<and> getQuestion (run ops_question_gone) question0 = None
   \<and> getSubscribers (run ops_question_gone) question0 = [300, 100]
   \<and> on_text 1 (run ops_question_gone) 8 200 (js ''bob'') (js ''Yes, it is.'') =
        (run ops_answer_failed, [Reply ''An error occurred. Please try again.''])
   \<and> map a_user_id (answers (run ops_answer_failed)) = [200]
   \<and> map points (users (run ops_answer_failed)) = [5, 5, 0]
   \<and> isSubscribed (run ops_answer_failed) 200 question0
   \<and> new_answer_count (run ops_answer_failed) 300 = 0
   \<and> new_answer_count (run ops_answer_failed) 100 = 0
   \<and> map_option step (getSession (run ops_answer_failed) 200) = Some Awaiting_answer"
  by code_simp

section \<open>Points and counters\<close>

lemma new_user_stats:
  "points (new_user now userId username_arg) = 0"
  "questions_asked (new_user now userId username_arg) = 0"
  "answers_given (new_user now userId username_arg) = 0"
  by (simp_all add: new_user_def)

lemma award_stats:
  "award F_questions_asked u =
     u\<lparr>points := points u + 5, questions_asked := questions_asked u + 1\<rparr>"
  "award F_answers_given u =
     u\<lparr>points := points u + 5, answers_given := answers_given u + 1\<rparr>"
  by (simp_all add: award_def)

lemma award_consistent: "stats_consistent u \<Longrightarrow> stats_consistent (award f u)"
  by (simp add: stats_consistent_def award_def)

lemma update_one_all:
  "(\<And>x. Q x \<Longrightarrow> Q (f x)) \<Longrightarrow> list_all Q xs \<Longrightarrow> list_all Q (update_one P f xs)"
  by (induction xs) auto

lemma users_createUser:
  "users (fst (createUser w now userId username_arg)) =
     (if \<exists>u \<in> set (users w). u_user_id u = userId then users w
      else users w @ [new_user now userId username_arg])"
proof (cases "getUser w userId")
  case None
  then have "\<not> (\<exists>u \<in> set (users w). u_user_id u = userId)"
    by (simp add: getUser_def find_one_None)
  with None show ?thesis by (simp add: createUser_def Let_def)
next
  case (Some u)
  then have "\<exists>u \<in> set (users w). u_user_id u = userId"
    using find_one_Some [of "\<lambda>u. u_user_id u = userId" "users w" u]
    by (auto simp: getUser_def)
  with Some show ?thesis by (simp add: createUser_def Let_def)
qed

lemma users_approveQuestion:
  "users (fst (approveQuestion w questionId channelMessageId)) =
     (case getQuestion w questionId of
        None \<Rightarrow> users w
      | Some q \<Rightarrow>
          update_one (\<lambda>u. u_user_id u = q_user_id q) (award F_questions_asked) (users w))"
proof (cases "ObjectId questionId")
  case None
  then show ?thesis by (simp add: approveQuestion_def getQuestion_def)
next
  case (Some qi)
  show ?thesis
  proof (cases "find_one (\<lambda>q. q_id q = qi) (questions w)")
    case None
    let ?f = "\<lambda>q. q\<lparr>approved := True, q_channel_message_id := Some channelMessageId\<rparr>"
    from None have "find_one (\<lambda>q. q_id q = qi) (update_one (\<lambda>q. q_id q = qi) ?f (questions w)) = None"
      by (simp add: find_one_update_one)
    with None Some show ?thesis by (simp add: approveQuestion_def getQuestion_def)
  next
    case (Some q)
    with \<open>ObjectId questionId = Some qi\<close> show ?thesis
      by (simp add: approveQuestion_found getQuestion_def)
  qed
qed

lemma users_createAnswer:
  "users (fst (createAnswer w now d)) =
     (case ObjectId (ad_questionId d) of
        None \<Rightarrow> users w
      | Some qi \<Rightarrow>
          update_one (\<lambda>u. u_user_id u = ad_userId d) (award F_answers_given) (users w))"
  by (simp add: createAnswer_def updateUserStats_award Let_def split: option.split)

lemma users_perform: "users (perform w op) = users_after w op"
proof (cases op)
  case (Op_createUser now userId username_arg)
  then show ?thesis by (simp add: users_after_def users_createUser)
next
  case (Op_approveQuestion questionId channelMessageId)
  then show ?thesis by (simp add: users_after_def users_approveQuestion)
next
  case (Op_createAnswer now d)
  then show ?thesis by (simp add: users_after_def users_createAnswer)
next
  case (Op_createQuestion now userId username_arg question_arg topic)
  then show ?thesis by (simp add: users_after_def createQuestion_def)
next
  case (Op_deleteQuestion questionId)
  then show ?thesis by (simp add: users_after_def split: option.split)
next
  case (Op_saveSession now userId sessionData)
  then show ?thesis by (simp add: users_after_def saveSession_def split: option.split)
next
  case (Op_deleteSession userId)
  then show ?thesis by (simp add: users_after_def deleteSession_def)
next
  case (Op_createNotification now userId p)
  then show ?thesis by (simp add: users_after_def createNotification_others)
next
  case (Op_markNotificationAsRead notificationId)
  then show ?thesis by (simp add: users_after_def markNotificationAsRead_def split: option.split)
next
  case (Op_markAllNotificationsAsRead userId)
  then show ?thesis by (simp add: users_after_def markAllNotificationsAsRead_def)
next
  case (Op_subscribeToQuestion now userId questionId)
  then show ?thesis by (simp add: users_after_def subscribeToQuestion_def split: option.split)
next
  case (Op_unsubscribeFromQuestion userId questionId)
  then show ?thesis by (simp add: users_after_def unsubscribeFromQuestion_def split: option.split)
next
  case (Op_voteAnswer now userId answerId voteType)
  then show ?thesis by (simp add: users_after_def voteAnswer_def Let_def split: option.split)
next
  case (Op_removeVote userId answerId)
  then show ?thesis by (simp add: users_after_def split: option.split)
next
  case (Op_sendMessage chat m)
  then show ?thesis by (simp add: users_after_def sendMessage_def)
next
  case (Op_post_to_channel qi)
  then show ?thesis by (simp add: users_after_def)
next
  case (Op_block userId)
  then show ?thesis by (simp add: users_after_def)
next
  case (Op_unblock userId)
  then show ?thesis by (simp add: users_after_def)
qed

lemma users_after_consistent:
  assumes "list_all stats_consistent (users w)"
  shows "list_all stats_consistent (users_after w op)"
proof -
  have upd: "list_all stats_consistent (update_one P (award f) (users w))" for P f
    using assms by (intro update_one_all award_consistent)
  have new: "stats_consistent (new_user now userId username_arg)" for now userId username_arg
    by (simp add: stats_consistent_def new_user_def)
  show ?thesis
    using assms upd new
    by (cases op) (simp_all add: users_after_def split: option.split)
qed

lemma run_snoc: "run (ops @ [op]) = perform (run ops) op"
  by (simp add: run_def)

lemma run_consistent: "list_all stats_consistent (users (run ops))"
proof (induction ops rule: rev_induct)
  case Nil
  show ?case by (simp add: run_def empty_world_def)
next
  case (snoc op ops)
  then show ?case by (simp add: run_snoc users_perform users_after_consistent)
qed

text \<open>
  C10: in every state reached from the empty store by the writes of the program, every
  user has points = 5 * (questions_asked + answers_given). The users change as the
  specification describes, whatever the state: a new user starts with the three fields
  at 0, the approval of a question adds 5 points and one asked question to its author
  in one update, the creation of an answer adds 5 points and one given answer to the
  answerer in one update, and no other write changes a user.
\<close>

theorem points_invariant:
  "(\<forall>u \<in> set (users (run ops)). points u = 5 * (questions_asked u + answers_given u))
   \<and> users (perform w op) = users_after w op"
  using run_consistent [of ops] users_perform [of w op]
  by (simp add: list_all_iff stats_consistent_def)

text \<open>
  C10, an instance: after Alice's question is approved and Bob has answered it, both
  have 5 points and Carol has none; a second approval changes the users as described.
\<close>

theorem points_invariant_witness:
  "list_all (\<lambda>u. points u = 5 * (questions_asked u + answers_given u)) (users (run ops_answered))
   \<and> map points (users (run ops_answered)) = [5, 5, 0]
   \<and> map questions_asked (users (run ops_answered)) = [1, 0, 0]
   \<and> map answers_given (users (run ops_answered)) = [0, 1, 0]
   \<and> users (perform (run ops_answered) (Op_approveQuestion question0 2)) =
       users_after (run ops_answered) (Op_approveQuestion question0 2)"
proof -
  have "map points (users (run ops_answered)) = [5, 5, 0]"
    "map questions_asked (users (run ops_answered)) = [1, 0, 0]"
    "map answers_given (users (run ops_answered)) = [0, 1, 0]"
    by code_simp+
  with points_invariant [of ops_answered "run ops_answered" "Op_approveQuestion question0 2"]
  show ?thesis by (simp add: list_all_iff)
qed

section \<open>The unique indexes hold in every reachable state\<close>

lemma perform_unique_votes:
  assumes "unique_votes w"
  shows "unique_votes (perform w op)"
proof (cases op)
  case (Op_voteAnswer now userId answerId voteType)
  with assms show ?thesis by (simp add: voteAnswer_unique)
next
  case (Op_removeVote userId answerId)
  with assms show ?thesis
    by (auto simp: unique_votes_def distinct_delete_one split: option.split)
next
  case (Op_createUser now userId username_arg)
  with assms show ?thesis
    by (simp add: unique_votes_def createUser_def Let_def split: option.split)
next
  case (Op_createQuestion now userId username_arg question_arg topic)
  with assms show ?thesis by (simp add: unique_votes_def createQuestion_def)
next
  case (Op_approveQuestion questionId channelMessageId)
  with assms show ?thesis
    by (simp add: unique_votes_def approveQuestion_def updateUserStats_def Let_def
        split: option.split)
next
  case (Op_deleteQuestion questionId)
  with assms show ?thesis by (simp add: unique_votes_def split: option.split)
next
  case (Op_createAnswer now d)
  with assms show ?thesis
    by (simp add: unique_votes_def createAnswer_def updateUserStats_def Let_def
        split: option.split)
next
  case (Op_saveSession now userId sessionData)
  with assms show ?thesis by (simp add: unique_votes_def saveSession_def split: option.split)
next
  case (Op_deleteSession userId)
  with assms show ?thesis by (simp add: unique_votes_def deleteSession_def)
next
  case (Op_createNotification now userId p)
  with assms show ?thesis by (simp add: unique_votes_def createNotification_others)
next
  case (Op_markNotificationAsRead notificationId)
  with assms show ?thesis
    by (simp add: unique_votes_def markNotificationAsRead_def split: option.split)
next
  case (Op_markAllNotificationsAsRead userId)
  with assms show ?thesis by (simp add: unique_votes_def markAllNotificationsAsRead_def)
next
  case (Op_subscribeToQuestion now userId questionId)
  with assms show ?thesis
    by (simp add: unique_votes_def subscribeToQuestion_def split: option.split)
next
  case (Op_unsubscribeFromQuestion userId questionId)
  with assms show ?thesis
    by (simp add: unique_votes_def unsubscribeFromQuestion_def split: option.split)
next
  case (Op_sendMessage chat m)
  with assms show ?thesis by (simp add: unique_votes_def sendMessage_def)
next
  case (Op_post_to_channel qi)
  with assms show ?thesis by (simp add: unique_votes_def)
next
  case (Op_block userId)
  with assms show ?thesis by (simp add: unique_votes_def)
next
  case (Op_unblock userId)
  with assms show ?thesis by (simp add: unique_votes_def)
qed

lemma perform_unique_subscriptions:
  assumes "unique_subscriptions w"
  shows "unique_subscriptions (perform w op)"
proof (cases op)
  case (Op_subscribeToQuestion now userId questionId)
  with assms show ?thesis by (simp add: subscribe_unique)
next
  case (Op_unsubscribeFromQuestion userId questionId)
  with assms show ?thesis
    by (auto simp: unique_subscriptions_def unsubscribeFromQuestion_def distinct_delete_one
        split: option.split)
next
  case (Op_createUser now userId username_arg)
  with assms show ?thesis
    by (simp add: unique_subscriptions_def createUser_def Let_def split: option.split)
next
  case (Op_createQuestion now userId username_arg question_arg topic)
  with assms show ?thesis by (simp add: unique_subscriptions_def createQuestion_def)
next
  case (Op_approveQuestion questionId channelMessageId)
  with assms show ?thesis
    by (simp add: unique_subscriptions_def approveQuestion_def updateUserStats_def Let_def
        split: option.split)
next
  case (Op_deleteQuestion questionId)
  with assms show ?thesis by (simp add: unique_subscriptions_def split: option.split)
next
  case (Op_createAnswer now d)
  with assms show ?thesis
    by (simp add: unique_subscriptions_def createAnswer_def updateUserStats_def Let_def
        split: option.split)
next
  case (Op_saveSession now userId sessionData)
  with assms show ?thesis
    by (simp add: unique_subscriptions_def saveSession_def split: option.split)
next
  case (Op_deleteSession userId)
  with assms show ?thesis by (simp add: unique_subscriptions_def deleteSession_def)
next
  case (Op_createNotification now userId p)
  with assms show ?thesis by (simp add: unique_subscriptions_def createNotification_others)
next
  case (Op_markNotificationAsRead notificationId)
  with assms show ?thesis
    by (simp add: unique_subscriptions_def markNotificationAsRead_def split: option.split)
next
  case (Op_markAllNotificationsAsRead userId)
  with assms show ?thesis by (simp add: unique_subscriptions_def markAllNotificationsAsRead_def)
next
  case (Op_voteAnswer now userId answerId voteType)
  with assms show ?thesis
    by (simp add: unique_subscriptions_def voteAnswer_def Let_def split: option.split)
next
  case (Op_removeVote userId answerId)
  with assms show ?thesis by (simp add: unique_subscriptions_def split: option.split)
next
  case (Op_sendMessage chat m)
  with assms show ?thesis by (simp add: unique_subscriptions_def sendMessage_def)
next
  case (Op_post_to_channel qi)
  with assms show ?thesis by (simp add: unique_subscriptions_def)
next
  case (Op_block userId)
  with assms show ?thesis by (simp add: unique_subscriptions_def)
next
  case (Op_unblock userId)
  with assms show ?thesis by (simp add: unique_subscriptions_def)
qed

lemma run_unique: "unique_votes (run ops) \<and> unique_subscriptions (run ops)"
proof (induction ops rule: rev_induct)
  case Nil
  show ?case by (simp add: run_def empty_world_def unique_votes_def unique_subscriptions_def)
next
  case (snoc op ops)
  then show ?case
    by (simp add: run_snoc perform_unique_votes perform_unique_subscriptions)
qed

section \<open>The handlers are sequences of writes\<close>

lemma written_refl: "written w w"
  unfolding written_def by (rule exI [of _ "[]"]) simp

lemma written_step: "written w w' \<Longrightarrow> written w (perform w' op)"
proof -
  assume "written w w'"
  then obtain ops where "w' = foldl perform w ops" by (auto simp: written_def)
  then have "perform w' op = foldl perform w (ops @ [op])" by simp
  then show ?thesis unfolding written_def by blast
qed

lemma written_run: "written (run ops) w' \<Longrightarrow> \<exists>ops'. w' = run ops'"
proof -
  assume "written (run ops) w'"
  then obtain more where "w' = foldl perform (run ops) more" by (auto simp: written_def)
  then have "w' = run (ops @ more)" by (simp add: run_def)
  then show ?thesis ..
qed

lemma written_createNotification:
  "written w w' \<Longrightarrow> written w (fst (createNotification w' now userId p))"
  using written_step [of w w' "Op_createNotification now userId p"] by simp

lemma written_APPROVE: "written w (fst (action_APPROVE ADMIN_ID w now from_id questionId))"
proof (cases "from_id \<noteq> ADMIN_ID \<or> getQuestion w questionId = None")
  case True
  then show ?thesis by (auto simp: action_APPROVE_def written_refl)
next
  case False
  then obtain q where q: "getQuestion w questionId = Some q" and a: "from_id = ADMIN_ID" by auto
  have "written w (perform (perform (perform w (Op_post_to_channel (q_id q)))
      (Op_approveQuestion questionId (next_message_id w)))
      (Op_createNotification now (q_user_id q) (Question_approved (q_question q) (next_message_id w))))"
    by (intro written_step written_refl)
  with q a show ?thesis by (simp add: action_APPROVE_def Let_def)
qed

lemma written_REJECT: "written w (fst (action_REJECT ADMIN_ID w from_id questionId))"
proof (cases "from_id \<noteq> ADMIN_ID \<or> getQuestion w questionId = None")
  case True
  then show ?thesis by (auto simp: action_REJECT_def written_refl)
next
  case False
  then obtain q where q: "getQuestion w questionId = Some q" and a: "from_id = ADMIN_ID" by auto
  then obtain qi where qi: "ObjectId questionId = Some qi" by (auto simp: getQuestion_Some)
  have "written w (perform (perform w (Op_deleteQuestion questionId))
      (Op_sendMessage (q_user_id q) Rejection_notice))"
    by (intro written_step written_refl)
  with q a qi show ?thesis
    by (simp add: action_REJECT_def Let_def sendMessage_def split: if_splits)
qed

lemma written_vote: "written w (fst (vote_action voteType ack w now userId answerId))"
proof -
  have v: "written w (fst (voteAnswer w now userId answerId voteType))"
    using written_step [OF written_refl, of w "Op_voteAnswer now userId answerId voteType"]
    by simp
  then have "written w (fst (createNotification (fst (voteAnswer w now userId answerId voteType))
      now u p))" for u p
    by (rule written_createNotification)
  with v show ?thesis by (simp add: vote_action_def Let_def split: option.split)
qed

lemma written_VOTE_NONE: "written w (fst (action_VOTE_NONE w userId answerId))"
  using written_step [OF written_refl, of w "Op_removeVote userId answerId"]
  by (auto simp: action_VOTE_NONE_def Let_def written_refl split: option.splits)

lemma written_SUBSCRIBE: "written w (fst (action_SUBSCRIBE w now userId questionId))"
  using written_step [OF written_refl, of w "Op_subscribeToQuestion now userId questionId"]
  by (simp add: action_SUBSCRIBE_def Let_def)

lemma written_UNSUBSCRIBE: "written w (fst (action_UNSUBSCRIBE w userId questionId))"
  using written_step [OF written_refl, of w "Op_unsubscribeFromQuestion userId questionId"]
  by (simp add: action_UNSUBSCRIBE_def Let_def)

lemma written_notify_subscribers:
  "written w0 w \<Longrightarrow>
   written w0 (case notify_subscribers w now question userId p subs of Inl w' \<Rightarrow> w' | Inr w' \<Rightarrow> w')"
proof (induction subs arbitrary: w)
  case Nil
  then show ?case by simp
next
  case (Cons s subs)
  from Cons.prems have "written w0 (fst (createNotification w now s p))"
    by (rule written_createNotification)
  then have "written w0 (case notify_subscribers (fst (createNotification w now s p)) now
      question userId p subs of Inl w' \<Rightarrow> w' | Inr w' \<Rightarrow> w')"
    by (rule Cons.IH)
  with Cons.IH [OF Cons.prems] Cons.prems show ?case
    by (auto split: option.split)
qed

lemma written_awaiting_answer:
  "written w (fst (awaiting_answer w now userId from_name session userMessage))"
proof (cases "allowed (contentFilter userMessage)")
  case False
  then show ?thesis by (simp add: awaiting_answer_def written_refl)
next
  case True
  show ?thesis
  proof (cases "s_questionId session")
    case None
    with True show ?thesis by (simp add: awaiting_answer_def written_refl)
  next
    case (Some questionId)
    let ?d = "\<lparr>ad_questionId = questionId, ad_userId = userId, ad_username = from_name,
               ad_answer = userMessage, ad_channelMessageId = s_channelMessageId session\<rparr>"
    let ?wa = "fst (createAnswer w now ?d)"
    let ?w1 = "fst (subscribeToQuestion ?wa now userId questionId)"
    have wa: "written w ?wa"
      using written_step [OF written_refl, of w "Op_createAnswer now ?d"] by simp
    then have w1: "written w ?w1"
      using written_step [of w ?wa "Op_subscribeToQuestion now userId questionId"] by simp
    then have w2: "written w (fst (createNotification ?w1 now u p))" for u p
      by (rule written_createNotification)
    have loop: "written w w' \<Longrightarrow>
        written w (case notify_subscribers w' now question userId p subs of
          Inl w'' \<Rightarrow> w'' | Inr w'' \<Rightarrow> w'')" for w' question p subs
      by (rule written_notify_subscribers)
    have del: "written w w' \<Longrightarrow> written w (deleteSession w' userId)" for w'
      using written_step [of w w' "Op_deleteSession userId"] by simp
    show ?thesis
    proof (cases "snd (createAnswer w now ?d)")
      case None
      with True Some wa show ?thesis by (simp add: awaiting_answer_def Let_def)
    next
      case (Some answerId)
      let ?question = "getQuestion ?w1 questionId"
      let ?p = "New_answer questionId userMessage userId"
      let ?w2 = "case ?question of None \<Rightarrow> ?w1
        | Some q \<Rightarrow> if q_user_id q \<noteq> userId
            then fst (createNotification ?w1 now (q_user_id q) ?p) else ?w1"
      have "written w ?w2" using w1 w2 by (simp split: option.split)
      then have l: "written w (case notify_subscribers ?w2 now ?question userId ?p
          (getSubscribers ?w2 questionId) of Inl w'' \<Rightarrow> w'' | Inr w'' \<Rightarrow> w'')"
        by (rule loop)
      show ?thesis
      proof (cases "notify_subscribers ?w2 now ?question userId ?p (getSubscribers ?w2 questionId)")
        case (Inl w3)
        with l True Some \<open>s_questionId session = Some questionId\<close> show ?thesis
          by (simp add: awaiting_answer_def Let_def)
      next
        case (Inr w3)
        with l have "written w (deleteSession w3 userId)" by (simp add: del)
        with Inr True Some \<open>s_questionId session = Some questionId\<close> show ?thesis
          by (simp add: awaiting_answer_def Let_def)
      qed
    qed
  qed
qed

lemma written_on_text:
  "written w (fst (on_text ADMIN_ID w now userId from_name userMessage))"
proof -
  have save: "written w (saveSession w now userId d)" for d
    using written_step [OF written_refl, of w "Op_saveSession now userId d"] by simp
  have feedback: "sendMessage w ADMIN_ID m = Some w1 \<Longrightarrow> written w (deleteSession w1 userId)"
    for m w1
    using written_step [OF written_step [OF written_refl], of w "Op_sendMessage ADMIN_ID m"
        "Op_deleteSession userId"]
    by simp
  show ?thesis
    using save feedback written_awaiting_answer [of w now userId from_name _ userMessage]
    by (auto simp: on_text_def Let_def written_refl split: option.split)
qed

text \<open>
  So the handlers lead from reachable states to reachable states, where the unique
  indexes and the relation between points and counters hold.
\<close>

lemma handlers_reachable:
  "\<exists>ops'. fst (action_APPROVE ADMIN_ID (run ops) now from_id questionId) = run ops'"
  "\<exists>ops'. fst (action_REJECT ADMIN_ID (run ops) from_id questionId) = run ops'"
  "\<exists>ops'. fst (vote_action voteType ack (run ops) now userId answerId) = run ops'"
  "\<exists>ops'. fst (action_VOTE_NONE (run ops) userId answerId) = run ops'"
  "\<exists>ops'. fst (action_SUBSCRIBE (run ops) now userId questionId) = run ops'"
  "\<exists>ops'. fst (action_UNSUBSCRIBE (run ops) userId questionId) = run ops'"
  "\<exists>ops'. fst (on_text ADMIN_ID (run ops) now userId from_name userMessage) = run ops'"
  by (rule written_run [OF written_APPROVE] written_run [OF written_REJECT]
      written_run [OF written_vote] written_run [OF written_VOTE_NONE]
      written_run [OF written_SUBSCRIBE] written_run [OF written_UNSUBSCRIBE]
      written_run [OF written_on_text])+

section \<open>Dispatch of the subscription buttons\<close>

lemma match_after_later: "match_after p cs \<noteq> None \<Longrightarrow> match_after p (c # cs) \<noteq> None"
  by simp

lemma unsubscribe_shadowed:
  "match_after ''UNSUBSCRIBE_'' data = Some q \<Longrightarrow> match_after ''SUBSCRIBE_'' data \<noteq> None"
proof (induction data)
  case Nil
  then show ?case by simp
next
  case (Cons c cs)
  show ?case
  proof (cases "take (length ''UNSUBSCRIBE_'') (c # cs) = ''UNSUBSCRIBE_''
      \<and> captured (drop (length ''UNSUBSCRIBE_'') (c # cs)) \<noteq> []")
    case True
    then have "c # cs = ''UNSUBSCRIBE_'' @ drop (length ''UNSUBSCRIBE_'') (c # cs)"
      by (metis append_take_drop_id)
    then obtain rest where rest: "c # cs = ''UNSUBSCRIBE_'' @ rest"
      and r: "rest = drop (length ''UNSUBSCRIBE_'') (c # cs)"
      by blast
    from True r have "captured rest \<noteq> []" by simp
    then have "match_after ''SUBSCRIBE_'' (''SUBSCRIBE_'' @ rest) \<noteq> None" by simp
    then have "match_after ''SUBSCRIBE_'' (CHR ''U'' # CHR ''N'' # ''SUBSCRIBE_'' @ rest) \<noteq> None"
      by (intro match_after_later)
    with rest show ?thesis by simp
  next
    case False
    with Cons.prems have "match_after ''UNSUBSCRIBE_'' cs = Some q" by (simp split: if_splits)
    then have "match_after ''SUBSCRIBE_'' cs \<noteq> None" by (rule Cons.IH)
    then show ?thesis by (rule match_after_later)
  qed
qed

text \<open>
  So a button whose data matches the pattern of the \<open>UNSUBSCRIBE\<close> handler is handled by
  the \<open>SUBSCRIBE\<close> handler, registered first: the body of the \<open>UNSUBSCRIBE\<close> handler
  never runs.
\<close>

lemma dispatch_subscribes:
  "dispatch_subscription w now userId data = Some r \<Longrightarrow>
   \<exists>questionId. match_after ''SUBSCRIBE_'' data = Some questionId
     \<and> r = action_SUBSCRIBE w now userId questionId"
proof (cases "match_after ''SUBSCRIBE_'' data")
  case (Some questionId)
  assume "dispatch_subscription w now userId data = Some r"
  with Some show ?thesis by (simp add: dispatch_subscription_def)
next
  case None
  assume d: "dispatch_subscription w now userId data = Some r"
  with None obtain q where "match_after ''UNSUBSCRIBE_'' data = Some q"
    by (auto simp: dispatch_subscription_def split: option.splits)
  then have "match_after ''SUBSCRIBE_'' data \<noteq> None" by (rule unsubscribe_shadowed)
  with None show ?thesis by simp
qed

lemma dispatch_unsubscribe_button:
  "dispatch_subscription (run ops_answered) 10 200 (''UNSUBSCRIBE_'' @ question0) =
     Some (action_SUBSCRIBE (run ops_answered) 10 200 question0)"
  by code_simp

end
